theory Spec2Isabelle
  imports Main "HOL-Library.Sublist" "HOL-Library.AList" "HOL-Library.Monad_Syntax"
begin

section \<open>Data model\<close>

text \<open>
  The records of \<^verbatim>\<open>cli/src/types.ts\<close> that \<^verbatim>\<open>git-status.ts\<close> imports.
  A JavaScript string is a \<^typ>\<open>string\<close> whose characters are the code units \<open>0..255\<close>.
  A TypeScript \<^verbatim>\<open>number\<close> that holds a line number or a line count is an \<^typ>\<open>int\<close>,
  and \<open>+\<close> and \<open>-\<close> are those of \<^typ>\<open>int\<close>. The code computes with IEEE doubles, which
  agree with this as long as every operand and every result lies strictly between
  \<open>- 2^53\<close> and \<open>2^53\<close> (\<^verbatim>\<open>Number.isSafeInteger\<close>); from \<open>2^53\<close> on the code rounds. Every
  theorem below that states the value of a sum or of a parsed number carries this bound
  as a hypothesis (\<open>isSafeInteger\<close>, \<open>safeClassification\<close>).
\<close>

text \<open>Modelled from the spec: the declaration of \<^verbatim>\<open>DiffHunk\<close> (section 3, and the
  object literal of \<^verbatim>\<open>parseHunkHeader\<close>).\<close>

record DiffHunk =
  oldStart :: int
  oldCount :: int
  newStart :: int
  newCount :: int

text \<open>Modelled from the spec: the declaration of \<^verbatim>\<open>FileDiff\<close> (section 3, and the
  object literal \<^verbatim>\<open>{ path: currentFile, hunks }\<close> of \<^verbatim>\<open>parseDiff\<close>).\<close>

record FileDiff =
  path :: string
  hunks :: "DiffHunk list"

text \<open>Modelled from the spec: the declaration of \<^verbatim>\<open>FileDiffStats\<close> (section 3, and the
  object literal \<^verbatim>\<open>{ added, deleted }\<close> of \<^verbatim>\<open>parseNumstat\<close>).\<close>

record FileDiffStats =
  added :: int
  deleted :: int

datatype DiffStatus = Added | Updated

text \<open>Modelled from the spec: the declaration of \<^verbatim>\<open>DefinitionDiff\<close> (section 3, and the
  object literal \<^verbatim>\<open>{ status, added, deleted }\<close> of \<^verbatim>\<open>calculateDefinitionDiff\<close>).
  TypeScript interfaces are structural, so the record extends \<^typ>\<open>FileDiffStats\<close> and
  shares its two field names.\<close>

record DefinitionDiff = FileDiffStats +
  status :: DiffStatus

text \<open>Modelled from the spec: the declaration of \<^verbatim>\<open>Definition\<close> (section 3, and
  \<^verbatim>\<open>makeDef\<close> of the test file). The field \<^verbatim>\<open>type\<close> is named \<open>deftype\<close>; the optional
  attribute \<^verbatim>\<open>diff\<close> is \<open>None\<close> when absent.\<close>

record Definition =
  name :: string
  line :: int
  endLine :: int
  deftype :: string
  exported :: bool
  diff :: "DefinitionDiff option"

section \<open>Classifying one definition: \<^verbatim>\<open>calculateDefinitionDiff\<close>\<close>

text \<open>The body of the loop \<^verbatim>\<open>for (const hunk of hunks)\<close>, on the two accumulators
  \<^verbatim>\<open>addedInDef\<close> and \<^verbatim>\<open>deletedInDef\<close>. The sums and differences are those of
  \<^typ>\<open>int\<close>: they are the code's as long as \<open>safeStep\<close> below holds, and the code rounds
  where it does not.\<close>

definition hunkStep :: "int \<Rightarrow> int \<Rightarrow> int \<times> int \<Rightarrow> DiffHunk \<Rightarrow> int \<times> int" where
  "hunkStep defStart defEnd acc hunk =
     (let addedInDef = fst acc;
          deletedInDef = snd acc;
          hunkNewStart = newStart hunk;
          hunkNewEnd = newStart hunk + newCount hunk - 1;
          overlapStart = max defStart hunkNewStart;
          overlapEnd = min defEnd hunkNewEnd;
          addedInDef' = (if overlapStart \<le> overlapEnd
                         then addedInDef + (overlapEnd - overlapStart + 1)
                         else addedInDef);
          deletedInDef' = (if oldCount hunk > 0
                           then (if hunkNewStart \<le> defEnd \<and> hunkNewEnd \<ge> defStart
                                 then deletedInDef + oldCount hunk
                                 else deletedInDef)
                           else deletedInDef)
      in (addedInDef', deletedInDef'))"

text \<open>The loop: both accumulators start at 0 and the hunks are visited in order.\<close>

fun scanHunks :: "int \<Rightarrow> int \<Rightarrow> int \<times> int \<Rightarrow> DiffHunk list \<Rightarrow> int \<times> int" where
  "scanHunks defStart defEnd acc [] = acc"
| "scanHunks defStart defEnd acc (hunk # rest) =
     scanHunks defStart defEnd (hunkStep defStart defEnd acc hunk) rest"

text \<open>\<^verbatim>\<open>null\<close> is \<open>None\<close>. Integer arithmetic raises nothing, so the \<^verbatim>\<open>catch\<close> branch
  is never entered.\<close>

definition calculateDefinitionDiff ::
  "'a Definition_scheme \<Rightarrow> DiffHunk list \<Rightarrow> DefinitionDiff option" where
  "calculateDefinitionDiff def hs =
     (let defStart = line def;
          defEnd = endLine def;
          defLineCount = defEnd - defStart + 1;
          acc = scanHunks defStart defEnd (0, 0) hs;
          addedInDef = fst acc;
          deletedInDef = snd acc
      in if addedInDef = 0 \<and> deletedInDef = 0 then None
         else Some \<lparr>added = addedInDef, deleted = deletedInDef,
                    status = (if addedInDef \<ge> defLineCount \<and> deletedInDef = 0
                              then Added else Updated)\<rparr>)"

text \<open>\<^verbatim>\<open>applyDiffToDefinitions\<close>: \<^verbatim>\<open>undefined\<close> is \<open>None\<close>; \<^verbatim>\<open>{ ...def, diff }\<close> copies
  every field of \<^verbatim>\<open>def\<close> and sets \<^verbatim>\<open>diff\<close>.\<close>

definition applyDiffToDefinitions ::
  "'a Definition_scheme list \<Rightarrow> FileDiff option \<Rightarrow> 'a Definition_scheme list" where
  "applyDiffToDefinitions definitions fileDiff =
     (case fileDiff of
        None \<Rightarrow> definitions
      | Some fd \<Rightarrow>
          if length (hunks fd) = 0 then definitions
          else map (\<lambda>def. case calculateDefinitionDiff def (hunks fd) of
                             Some d \<Rightarrow> def\<lparr>diff := Some d\<rparr>
                           | None \<Rightarrow> def) definitions)"

section \<open>Strings\<close>

text \<open>The characters the parsers name.\<close>

abbreviation TAB :: char where "TAB \<equiv> CHR 0x09"
abbreviation LF :: char where "LF \<equiv> CHR 0x0A"
abbreviation CR :: char where "CR \<equiv> CHR 0x0D"
abbreviation DQUOTE :: char where "DQUOTE \<equiv> CHR 0x22"
abbreviation BACKSLASH :: char where "BACKSLASH \<equiv> CHR 0x5C"

text \<open>White space and line terminators of ECMAScript among the code units \<open>0..255\<close>:
  TAB, LF, VT, FF, CR, SP and NBSP. \<^verbatim>\<open>String.prototype.trim\<close> and \<^verbatim>\<open>parseInt\<close> strip
  exactly these.\<close>

definition isWhiteSpace :: "char \<Rightarrow> bool" where
  "isWhiteSpace c \<longleftrightarrow> c \<in> set [CHR 0x09, CHR 0x0A, CHR 0x0B, CHR 0x0C, CHR 0x0D, CHR 0x20, CHR 0xA0]"

text \<open>\<^verbatim>\<open>s.trim()\<close>.\<close>

definition trim :: "string \<Rightarrow> string" where
  "trim s = rev (dropWhile isWhiteSpace (rev (dropWhile isWhiteSpace s)))"

text \<open>\<^verbatim>\<open>s.split(sep)\<close> for a one-character separator: the pieces between the separators,
  in order; \<^verbatim>\<open>''.split(sep)\<close> is \<^verbatim>\<open>['']\<close>.\<close>

fun splitOn :: "char \<Rightarrow> string \<Rightarrow> string list" where
  "splitOn sep [] = [[]]"
| "splitOn sep (c # cs) =
     (if c = sep then [] # splitOn sep cs
      else (case splitOn sep cs of
              [] \<Rightarrow> [[c]]
            | w # ws \<Rightarrow> (c # w) # ws))"

text \<open>\<^verbatim>\<open>parts.join(sep)\<close>.\<close>

fun joinWith :: "char \<Rightarrow> string list \<Rightarrow> string" where
  "joinWith sep [] = []"
| "joinWith sep [x] = x"
| "joinWith sep (x # y # ys) = x @ sep # joinWith sep (y # ys)"

text \<open>A decimal digit, \<^verbatim>\<open>\d\<close> of a regular expression without the \<^verbatim>\<open>u\<close> flag.\<close>

definition isDigit :: "char \<Rightarrow> bool" where
  "isDigit c \<longleftrightarrow> c \<in> set ''0123456789''"

text \<open>The mathematical value of a run of decimal digits, most significant first.\<close>

definition digitsVal :: "string \<Rightarrow> nat" where
  "digitsVal ds = foldl (\<lambda>n c. 10 * n + (of_char c - 48)) 0 ds"

text \<open>\<^verbatim>\<open>parseInt(inputString, 10)\<close>: leading white space is dropped, one sign is read,
  then the longest run of digits; with no digit the result is \<^verbatim>\<open>NaN\<close>, here \<open>None\<close>.
  Whatever follows the digits is ignored. The value is the mathematical one: it is the
  code's for a run whose value is below \<open>2^53\<close>, and the code returns the nearest double
  for a longer one (the same sign, and zero only for zero).\<close>

definition parseInt10 :: "string \<Rightarrow> int option" where
  "parseInt10 inputString =
     (let S = dropWhile isWhiteSpace inputString;
          sign = (if S \<noteq> [] \<and> hd S = CHR ''-'' then - 1 else 1);
          S' = (if S \<noteq> [] \<and> (hd S = CHR ''+'' \<or> hd S = CHR ''-'') then tl S else S);
          Z = takeWhile isDigit S'
      in if Z = [] then None else Some (sign * int (digitsVal Z)))"

section \<open>\<^verbatim>\<open>normalizePath\<close>\<close>

text \<open>\<^verbatim>\<open>path.replace(/\\"/g, '"')\<close>: every backslash followed by a double quote,
  found from the left, becomes the double quote.\<close>

fun unescapeQuotes :: "string \<Rightarrow> string" where
  "unescapeQuotes (a # b # cs) =
     (if a = BACKSLASH \<and> b = DQUOTE then DQUOTE # unescapeQuotes cs
      else a # unescapeQuotes (b # cs))"
| "unescapeQuotes cs = cs"

text \<open>\<^verbatim>\<open>path.replace(/\\\\/g, '\\')\<close>: every pair of backslashes, found from the left,
  becomes one backslash.\<close>

fun unescapeBackslashes :: "string \<Rightarrow> string" where
  "unescapeBackslashes (a # b # cs) =
     (if a = BACKSLASH \<and> b = BACKSLASH then BACKSLASH # unescapeBackslashes cs
      else a # unescapeBackslashes (b # cs))"
| "unescapeBackslashes cs = cs"

text \<open>\<^verbatim>\<open>path.slice(1, -1)\<close> on a string of length 1 is empty, as \<open>butlast (tl p)\<close> is.\<close>

definition normalizePath :: "string \<Rightarrow> string" where
  "normalizePath p =
     (let p' = (if p \<noteq> [] \<and> hd p = DQUOTE \<and> last p = DQUOTE
                then unescapeBackslashes (unescapeQuotes (butlast (tl p)))
                else p)
      in map (\<lambda>c. if c = BACKSLASH then CHR ''/'' else c) p')"

section \<open>\<^verbatim>\<open>parseNumstat\<close>\<close>

text \<open>A JavaScript \<^verbatim>\<open>Map\<close> is an association list in insertion order with one pair for
  each key: \<^verbatim>\<open>m.set(k, v)\<close> replaces the value of a key that is present, where it stands,
  and appends a new key at the end, which is \<^const>\<open>AList.update\<close>; \<^verbatim>\<open>m.get(k)\<close> is
  \<^const>\<open>map_of\<close> and \<^verbatim>\<open>m.size\<close> is \<^const>\<open>length\<close>.\<close>

type_synonym ('k, 'v) jsMap = "('k \<times> 'v) list"

text \<open>The body of the loop over the lines; each \<^verbatim>\<open>continue\<close> returns \<open>stats\<close> as it is.\<close>

definition numstatStep :: "(string, FileDiffStats) jsMap \<Rightarrow> string \<Rightarrow> (string, FileDiffStats) jsMap" where
  "numstatStep stats ln =
     (if trim ln = [] then stats
      else let parts = splitOn TAB ln in
        if length parts < 3 then stats
        else let addedStr = parts ! 0;
                 deletedStr = parts ! 1;
                 pathParts = drop 2 parts;
                 pth = normalizePath (joinWith TAB pathParts) in
          if addedStr = ''-'' \<or> deletedStr = ''-'' then stats
          else (case (parseInt10 addedStr, parseInt10 deletedStr) of
                  (Some a, Some d) \<Rightarrow>
                     if a = 0 \<and> d = 0 then stats
                     else AList.update pth \<lparr>added = a, deleted = d\<rparr> stats
                | _ \<Rightarrow> stats))"

definition parseNumstat :: "string \<Rightarrow> (string, FileDiffStats) jsMap" where
  "parseNumstat numstatOutput =
     (if trim numstatOutput = [] then []
      else foldl numstatStep [] (splitOn LF numstatOutput))"

section \<open>\<^verbatim>\<open>parseHunkHeader\<close>\<close>

text \<open>The pattern is \<^verbatim>\<open>/@@ -(\d+)(?:,(\d+))? \+(\d+)(?:,(\d+))? @@/\<close>, without \<^verbatim>\<open>^\<close>:
  \<^verbatim>\<open>line.match\<close> tries every start position from the left and keeps the first match.
  At one start position the match is deterministic. A greedy \<^verbatim>\<open>\d+\<close> takes the whole run
  of digits, and giving a digit back cannot help, since a digit would then have to match
  a comma or a space. The optional group is taken when a comma and a digit follow; when
  it is not taken the next character has to be the space.\<close>

text \<open>A literal piece of the pattern: the rest of the input after it.\<close>

definition matchLit :: "string \<Rightarrow> string \<Rightarrow> string option" where
  "matchLit lit s = (if prefix lit s then Some (drop (length lit) s) else None)"

text \<open>\<^verbatim>\<open>(\d+)\<close>: the captured digits and the rest of the input.\<close>

definition matchDigits :: "string \<Rightarrow> (string \<times> string) option" where
  "matchDigits s =
     (let ds = takeWhile isDigit s
      in if ds = [] then None else Some (ds, dropWhile isDigit s))"

text \<open>\<^verbatim>\<open>(?:,(\d+))?\<close>: the capture is \<^verbatim>\<open>undefined\<close>, here \<open>None\<close>, when the group is
  skipped.\<close>

definition matchOptCount :: "string \<Rightarrow> string option \<times> string" where
  "matchOptCount s =
     (case matchLit '','' s of
        None \<Rightarrow> (None, s)
      | Some r \<Rightarrow> (case matchDigits r of
                    None \<Rightarrow> (None, s)
                  | Some (ds, r') \<Rightarrow> (Some ds, r')))"

text \<open>The pattern at the start of \<open>s\<close>: the four captures \<^verbatim>\<open>match[1..4]\<close>.\<close>

definition matchHunkAt :: "string \<Rightarrow> (string \<times> string option \<times> string \<times> string option) option" where
  "matchHunkAt s =
     do {
       r1 \<leftarrow> matchLit ''@@ -'' s;
       (m1, r2) \<leftarrow> matchDigits r1;
       (m2, r3) \<leftarrow> Some (matchOptCount r2);
       r4 \<leftarrow> matchLit '' +'' r3;
       (m3, r5) \<leftarrow> matchDigits r4;
       (m4, r6) \<leftarrow> Some (matchOptCount r5);
       _ \<leftarrow> matchLit '' @@'' r6;
       Some (m1, m2, m3, m4)
     }"

text \<open>The pattern at the leftmost start position where it matches.\<close>

fun matchHunk :: "string \<Rightarrow> (string \<times> string option \<times> string \<times> string option) option" where
  "matchHunk [] = matchHunkAt []"
| "matchHunk (c # cs) =
     (case matchHunkAt (c # cs) of
        Some m \<Rightarrow> Some m
      | None \<Rightarrow> matchHunk cs)"

text \<open>\<^verbatim>\<open>match[2] ? parseInt(match[2], 10) : 1\<close>: a capture is truthy when it is defined
  and not empty.\<close>

definition countOr1 :: "string option \<Rightarrow> int option" where
  "countOr1 m = (case m of
                   None \<Rightarrow> Some 1
                 | Some g \<Rightarrow> if g \<noteq> [] then parseInt10 g else Some 1)"

text \<open>\<^verbatim>\<open>null\<close> is \<open>None\<close>. The fields are integers, so a \<^verbatim>\<open>NaN\<close> from \<^verbatim>\<open>parseInt\<close>
  has no value here and would end the \<open>do\<close> block; the captures are runs of digits, on
  which \<^const>\<open>parseInt10\<close> always has a value (lemma \<open>parseInt10_digits\<close>).\<close>

definition parseHunkHeader :: "string \<Rightarrow> DiffHunk option" where
  "parseHunkHeader ln =
     (case matchHunk ln of
        None \<Rightarrow> None
      | Some (m1, m2, m3, m4) \<Rightarrow>
          do {
            os \<leftarrow> parseInt10 m1;
            oc \<leftarrow> countOr1 m2;
            ns \<leftarrow> parseInt10 m3;
            nc \<leftarrow> countOr1 m4;
            Some \<lparr>oldStart = os, oldCount = oc, newStart = ns, newCount = nc\<rparr>
          })"

section \<open>\<^verbatim>\<open>parseDiff\<close>\<close>

text \<open>The pattern \<^verbatim>\<open>/diff --git a\/.+ b\/(.+)/\<close>. A dot matches every character
  but a line terminator (LF and CR among the code units \<open>0..255\<close>).\<close>

definition isLineTerminator :: "char \<Rightarrow> bool" where
  "isLineTerminator c \<longleftrightarrow> c = LF \<or> c = CR"

text \<open>What \<^verbatim>\<open>.+ b\/(.+)\<close> captures in a run of dots, its first character already taken
  by \<^verbatim>\<open>.+\<close>: the greedy \<^verbatim>\<open>.+\<close> gives characters back one at a time, so the match uses
  the last \<^verbatim>\<open>" b/"\<close> that has a character after it, and the greedy capture is the rest of
  the run.\<close>

fun lastDest :: "string \<Rightarrow> string option" where
  "lastDest [] = None"
| "lastDest (c # cs) =
     (case lastDest cs of
        Some d \<Rightarrow> Some d
      | None \<Rightarrow> if prefix '' b/'' (c # cs) \<and> drop 3 (c # cs) \<noteq> []
                then Some (drop 3 (c # cs)) else None)"

text \<open>The pattern at the start of \<open>s\<close>: the capture \<^verbatim>\<open>match[1]\<close>.\<close>

definition matchDestAt :: "string \<Rightarrow> string option" where
  "matchDestAt s =
     (case matchLit ''diff --git a/'' s of
        None \<Rightarrow> None
      | Some r \<Rightarrow> (case takeWhile (\<lambda>c. \<not> isLineTerminator c) r of
                    [] \<Rightarrow> None
                  | c # run \<Rightarrow> lastDest run))"

text \<open>The pattern at the leftmost start position where it matches.\<close>

fun matchDest :: "string \<Rightarrow> string option" where
  "matchDest [] = matchDestAt []"
| "matchDest (c # cs) =
     (case matchDestAt (c # cs) of
        Some d \<Rightarrow> Some d
      | None \<Rightarrow> matchDest cs)"

text \<open>The state of the scan: the result map \<^verbatim>\<open>files\<close>, \<^verbatim>\<open>currentFile\<close> (\<^verbatim>\<open>null\<close> is
  \<open>None\<close>) and the list \<^verbatim>\<open>hunks\<close>, here \<open>hunkList\<close>.\<close>

record DiffState =
  files :: "(string, FileDiff) jsMap"
  currentFile :: "string option"
  hunkList :: "DiffHunk list"

text \<open>\<^verbatim>\<open>currentFile\<close> as a condition: \<^verbatim>\<open>null\<close> and the empty string are falsy.\<close>

definition truthy :: "string option \<Rightarrow> bool" where
  "truthy cf = (case cf of None \<Rightarrow> False | Some p \<Rightarrow> p \<noteq> [])"

text \<open>\<^verbatim>\<open>if (currentFile && hunks.length > 0) files.set(currentFile, {path: currentFile, hunks})\<close>,
  which the code runs at each file header and after the loop.\<close>

definition saveFile :: "DiffState \<Rightarrow> (string, FileDiff) jsMap" where
  "saveFile st =
     (case currentFile st of
        None \<Rightarrow> files st
      | Some p \<Rightarrow> if p \<noteq> [] \<and> length (hunkList st) > 0
                  then AList.update p \<lparr>path = p, hunks = hunkList st\<rparr> (files st)
                  else files st)"

text \<open>The body of the loop over the lines.\<close>

definition diffStep :: "DiffState \<Rightarrow> string \<Rightarrow> DiffState" where
  "diffStep st ln =
     (if prefix ''diff --git '' ln then
        \<lparr>files = saveFile st,
         currentFile = (case matchDest ln of
                          Some m \<Rightarrow> Some (normalizePath m)
                        | None \<Rightarrow> None),
         hunkList = []\<rparr>
      else if prefix ''Binary files '' ln then
        st\<lparr>currentFile := None, hunkList := []\<rparr>
      else if prefix ''@@'' ln \<and> truthy (currentFile st) then
        (case parseHunkHeader ln of
           Some hunk \<Rightarrow> st\<lparr>hunkList := hunkList st @ [hunk]\<rparr>
         | None \<Rightarrow> st)
      else st)"

definition parseDiff :: "string \<Rightarrow> (string, FileDiff) jsMap" where
  "parseDiff diffOutput =
     (if trim diffOutput = [] then []
      else saveFile (foldl diffStep \<lparr>files = [], currentFile = None, hunkList = []\<rparr>
                       (splitOn LF diffOutput)))"

section \<open>The specification's reading of the parsers and of the classifier\<close>

text \<open>The definitions of this section follow the words of the specification; the
  theorems below compare them with the definitions taken from the code.\<close>

subsection \<open>Classifier (section 4.5)\<close>

text \<open>The number of lines of the definition's span \<open>[line, endLine]\<close> that lie in the
  hunk's new span \<open>[newStart, newStart + newCount - 1]\<close>.\<close>

definition overlapLines :: "int \<Rightarrow> int \<Rightarrow> DiffHunk \<Rightarrow> int" where
  "overlapLines l e h = int (card ({l..e} \<inter> {newStart h..newStart h + newCount h - 1}))"

text \<open>The touch test of the deletion rule.\<close>

definition touches :: "int \<Rightarrow> int \<Rightarrow> DiffHunk \<Rightarrow> bool" where
  "touches l e h \<longleftrightarrow> newStart h \<le> e \<and> newStart h + newCount h - 1 \<ge> l"

definition addedTotal :: "int \<Rightarrow> int \<Rightarrow> DiffHunk list \<Rightarrow> int" where
  "addedTotal l e hs = sum_list (map (overlapLines l e) hs)"

definition deletedTotal :: "int \<Rightarrow> int \<Rightarrow> DiffHunk list \<Rightarrow> int" where
  "deletedTotal l e hs =
     sum_list (map oldCount (filter (\<lambda>h. oldCount h > 0 \<and> touches l e h) hs))"

subsection \<open>The range in which the arithmetic of the code is exact\<close>

text \<open>\<^verbatim>\<open>Number.isSafeInteger\<close>: an integer strictly between \<open>- 2^53\<close> and \<open>2^53\<close>.\<close>

definition isSafeInteger :: "int \<Rightarrow> bool" where
  "isSafeInteger x \<longleftrightarrow> - (2 ^ 53) < x \<and> x < 2 ^ 53"

text \<open>Every number that one pass through the loop body of \<^verbatim>\<open>calculateDefinitionDiff\<close>
  reads or computes is a safe integer: the three fields of the hunk that are read, the
  two steps of \<^verbatim>\<open>hunk.newStart + hunk.newCount - 1\<close>, the two steps of
  \<^verbatim>\<open>overlapEnd - overlapStart + 1\<close> and the new \<^verbatim>\<open>addedInDef\<close> when there is an overlap,
  and the new \<^verbatim>\<open>deletedInDef\<close> when the hunk's \<^verbatim>\<open>oldCount\<close> is added.\<close>

definition safeStep :: "int \<Rightarrow> int \<Rightarrow> int \<times> int \<Rightarrow> DiffHunk \<Rightarrow> bool" where
  "safeStep defStart defEnd acc hunk =
     (let hunkNewStart = newStart hunk;
          hunkNewEnd = newStart hunk + newCount hunk - 1;
          overlapStart = max defStart hunkNewStart;
          overlapEnd = min defEnd hunkNewEnd
      in isSafeInteger (newStart hunk) \<and> isSafeInteger (newCount hunk)
         \<and> isSafeInteger (oldCount hunk)
         \<and> isSafeInteger (newStart hunk + newCount hunk) \<and> isSafeInteger hunkNewEnd
         \<and> (overlapStart \<le> overlapEnd \<longrightarrow>
               isSafeInteger (overlapEnd - overlapStart)
             \<and> isSafeInteger (overlapEnd - overlapStart + 1)
             \<and> isSafeInteger (fst acc + (overlapEnd - overlapStart + 1)))
         \<and> (oldCount hunk > 0 \<and> hunkNewStart \<le> defEnd \<and> hunkNewEnd \<ge> defStart \<longrightarrow>
               isSafeInteger (snd acc + oldCount hunk)))"

text \<open>The same for every pass of the loop, with the accumulators as the code has them.\<close>

fun safeScan :: "int \<Rightarrow> int \<Rightarrow> int \<times> int \<Rightarrow> DiffHunk list \<Rightarrow> bool" where
  "safeScan defStart defEnd acc [] = True"
| "safeScan defStart defEnd acc (hunk # rest) =
     (safeStep defStart defEnd acc hunk
      \<and> safeScan defStart defEnd (hunkStep defStart defEnd acc hunk) rest)"

text \<open>The same for a whole call: the two fields of the definition, the two steps of
  \<^verbatim>\<open>defEnd - defStart + 1\<close> and the loop.\<close>

definition safeClassification :: "'a Definition_scheme \<Rightarrow> DiffHunk list \<Rightarrow> bool" where
  "safeClassification def hs \<longleftrightarrow>
     isSafeInteger (line def) \<and> isSafeInteger (endLine def)
     \<and> isSafeInteger (endLine def - line def)
     \<and> isSafeInteger (endLine def - line def + 1)
     \<and> safeScan (line def) (endLine def) (0, 0) hs"

subsection \<open>Hunk header grammar (section 4.3)\<close>

text \<open>A non-empty run of decimal digits.\<close>

definition digitString :: "string \<Rightarrow> bool" where
  "digitString s \<longleftrightarrow> s \<noteq> [] \<and> list_all isDigit s"

definition optDigitString :: "string option \<Rightarrow> bool" where
  "optDigitString m = (case m of None \<Rightarrow> True | Some g \<Rightarrow> digitString g)"

text \<open>The optional \<^verbatim>\<open>,<count>\<close> of a header.\<close>

definition countText :: "string option \<Rightarrow> string" where
  "countText m = (case m of None \<Rightarrow> [] | Some g \<Rightarrow> '','' @ g)"

text \<open>\<^verbatim>\<open>@@ -<oldStart>[,<oldCount>] +<newStart>[,<newCount>] @@\<close>\<close>

definition hunkHeaderText :: "string \<Rightarrow> string option \<Rightarrow> string \<Rightarrow> string option \<Rightarrow> string" where
  "hunkHeaderText a b c d = ''@@ -'' @ a @ countText b @ '' +'' @ c @ countText d @ '' @@''"

text \<open>The four fields are well-formed: digits, and digits after each comma.\<close>

definition headerFields :: "string \<Rightarrow> string option \<Rightarrow> string \<Rightarrow> string option \<Rightarrow> bool" where
  "headerFields a b c d \<longleftrightarrow> digitString a \<and> optDigitString b \<and> digitString c \<and> optDigitString d"

text \<open>A count that is left out is 1.\<close>

definition countValue :: "string option \<Rightarrow> int" where
  "countValue m = (case m of None \<Rightarrow> 1 | Some g \<Rightarrow> int (digitsVal g))"

definition nonNegHunk :: "DiffHunk \<Rightarrow> bool" where
  "nonNegHunk h \<longleftrightarrow> 0 \<le> oldStart h \<and> 0 \<le> oldCount h \<and> 0 \<le> newStart h \<and> 0 \<le> newCount h"

subsection \<open>Path normalization (section 4.1)\<close>

text \<open>A backslash becomes a forward slash.\<close>

definition toSlash :: "char \<Rightarrow> char" where
  "toSlash c = (if c = BACKSLASH then CHR ''/'' else c)"

text \<open>The token starts and ends with a double quote.\<close>

definition quoted :: "string \<Rightarrow> bool" where
  "quoted p \<longleftrightarrow> p \<noteq> [] \<and> hd p = DQUOTE \<and> last p = DQUOTE"

text \<open>Replacing every occurrence of \<open>pat\<close> by \<open>rep\<close>, found from the left and without
  overlap, as \<^verbatim>\<open>String.prototype.replace\<close> does for a global pattern that is a fixed
  string.\<close>

function replaceAll :: "string \<Rightarrow> string \<Rightarrow> string \<Rightarrow> string" where
  "replaceAll pat rep s =
     (if s = [] \<or> pat = [] then s
      else if prefix pat s then rep @ replaceAll pat rep (drop (length pat) s)
      else hd s # replaceAll pat rep (tl s))"
  by pat_completeness auto
termination
  by (relation "measure (\<lambda>(pat, rep, s). length s)") auto

declare replaceAll.simps [simp del]

subsection \<open>Maps built by insertion\<close>

text \<open>Inserting a list of rows in order into an empty map.\<close>

definition insertAll :: "('k \<times> 'v) list \<Rightarrow> ('k, 'v) jsMap" where
  "insertAll rows = foldl (\<lambda>m r. AList.update (fst r) (snd r) m) [] rows"

text \<open>The rows of a list that carry the key \<open>k\<close>, in order.\<close>

definition rowsFor :: "'k \<Rightarrow> ('k \<times> 'v) list \<Rightarrow> ('k \<times> 'v) list" where
  "rowsFor k rows = filter (\<lambda>r. fst r = k) rows"

subsection \<open>Numstat rows (section 4.2)\<close>

text \<open>The entry a line stands for, if any: at least three tab-separated fields, no
  count field that is the literal \<^verbatim>\<open>-\<close>, both counts parsed, not both zero; the path
  is the remaining fields joined by tabs again, normalized.\<close>

definition numstatRow :: "string \<Rightarrow> (string \<times> FileDiffStats) option" where
  "numstatRow ln =
     (case splitOn TAB ln of
        a # d # p # ps \<Rightarrow>
          if a = ''-'' \<or> d = ''-'' then None
          else (case parseInt10 a of
                  None \<Rightarrow> None
                | Some x \<Rightarrow> (case parseInt10 d of
                    None \<Rightarrow> None
                  | Some y \<Rightarrow> if x = 0 \<and> y = 0 then None
                              else Some (normalizePath (joinWith TAB (p # ps)),
                                         \<lparr>added = x, deleted = y\<rparr>)))
      | _ \<Rightarrow> None)"

definition numstatRows :: "string \<Rightarrow> (string \<times> FileDiffStats) list" where
  "numstatRows text = List.map_filter numstatRow (splitOn LF text)"

text \<open>The count field begins, after leading white space, with a minus sign.\<close>

definition signedField :: "string \<Rightarrow> bool" where
  "signedField f = (case dropWhile isWhiteSpace f of [] \<Rightarrow> False | c # _ \<Rightarrow> c = CHR ''-'')"

text \<open>Every line that the loop does not skip (at least three fields, no count field that is
  the literal \<^verbatim>\<open>-\<close>, both counts parsed, not both zero) has two count fields that do not
  begin with a minus sign.\<close>

definition countsUnsigned :: "string \<Rightarrow> bool" where
  "countsUnsigned text \<longleftrightarrow>
     list_all (\<lambda>ln. case splitOn TAB ln of
                      a # d # p # ps \<Rightarrow>
                        a = ''-'' \<or> d = ''-'' \<or> parseInt10 a = None \<or> parseInt10 d = None
                        \<or> (parseInt10 a = Some 0 \<and> parseInt10 d = Some 0)
                        \<or> (\<not> signedField a \<and> \<not> signedField d)
                    | _ \<Rightarrow> True)
       (splitOn LF text)"

subsection \<open>File sections of a unified diff (section 4.4)\<close>

definition isFileHeader :: "string \<Rightarrow> bool" where
  "isFileHeader ln \<longleftrightarrow> prefix ''diff --git '' ln"

definition isBinaryMarker :: "string \<Rightarrow> bool" where
  "isBinaryMarker ln \<longleftrightarrow> prefix ''Binary files '' ln"

text \<open>A file section is a file-pair marker line with the lines after it, up to the next
  marker. Lines before the first marker belong to no section.\<close>

fun sections :: "string list \<Rightarrow> (string \<times> string list) list" where
  "sections [] = []"
| "sections (ln # lns) =
     (if isFileHeader ln
      then (ln, takeWhile (\<lambda>l. \<not> isFileHeader l) lns) # sections lns
      else sections lns)"

text \<open>The normalized destination (\<^verbatim>\<open>b/\<close>) path of a marker line.\<close>

definition destinationPath :: "string \<Rightarrow> string option" where
  "destinationPath hdr = map_option normalizePath (matchDest hdr)"

text \<open>The hunk headers of a section's lines that parse, in source order.\<close>

definition sectionHunks :: "string list \<Rightarrow> DiffHunk list" where
  "sectionHunks body = List.map_filter parseHunkHeader (filter (prefix ''@@'') body)"

text \<open>What a section commits: nothing when its marker gives no path or an empty one,
  when a binary-file marker stands among its lines, or when no hunk header parses.\<close>

definition sectionResult :: "string \<times> string list \<Rightarrow> (string \<times> FileDiff) option" where
  "sectionResult sec =
     (case destinationPath (fst sec) of
        None \<Rightarrow> None
      | Some p \<Rightarrow>
          if p = [] \<or> list_ex isBinaryMarker (snd sec) \<or> sectionHunks (snd sec) = []
          then None
          else Some (p, \<lparr>path = p, hunks = sectionHunks (snd sec)\<rparr>))"

definition sectionResults :: "string \<Rightarrow> (string \<times> FileDiff) list" where
  "sectionResults text = List.map_filter sectionResult (sections (splitOn LF text))"




section \<open>The classifier\<close>

lemma overlapLines_eq:
  "overlapLines l e h =
     (if max l (newStart h) \<le> min e (newStart h + newCount h - 1)
      then min e (newStart h + newCount h - 1) - max l (newStart h) + 1 else 0)"
proof -
  have "{l..e} \<inter> {newStart h..newStart h + newCount h - 1} =
          {max l (newStart h)..min e (newStart h + newCount h - 1)}"
    by (rule Int_atLeastAtMost)
  then show ?thesis
    unfolding overlapLines_def by (simp del: Int_atLeastAtMost) linarith
qed

lemma hunkStep_totals:
  "hunkStep l e acc h =
     (fst acc + overlapLines l e h,
      snd acc + (if oldCount h > 0 \<and> touches l e h then oldCount h else 0))"
  by (simp add: hunkStep_def overlapLines_eq touches_def Let_def)

lemma scanHunks_totals:
  "scanHunks l e acc hs = (fst acc + addedTotal l e hs, snd acc + deletedTotal l e hs)"
proof (induction hs arbitrary: acc)
  case Nil
  show ?case by (simp add: addedTotal_def deletedTotal_def)
next
  case (Cons h hs)
  have "scanHunks l e acc (h # hs) = scanHunks l e (hunkStep l e acc h) hs" by simp
  also have "\<dots> = (fst (hunkStep l e acc h) + addedTotal l e hs,
                    snd (hunkStep l e acc h) + deletedTotal l e hs)"
    by (rule Cons.IH)
  also have "\<dots> = (fst acc + addedTotal l e (h # hs), snd acc + deletedTotal l e (h # hs))"
    by (simp add: hunkStep_totals addedTotal_def deletedTotal_def)
  finally show ?case .
qed

text \<open>
  Claim C1. For a definition with \<open>line \<le> endLine\<close> and a hunk list on which the
  arithmetic of the code is exact (every number read or computed is a safe integer),
  the loop of \<^verbatim>\<open>calculateDefinitionDiff\<close> ends with \<^verbatim>\<open>addedInDef\<close> equal to the sum,
  over all hunks, of the number of lines that \<open>[line, endLine]\<close> shares with
  \<open>[newStart, newStart + newCount - 1]\<close>, and with \<^verbatim>\<open>deletedInDef\<close> equal to the sum of
  the whole \<^verbatim>\<open>oldCount\<close> of exactly the hunks with \<open>oldCount > 0\<close> whose new span touches
  the definition's span; a result, when there is one, reports these two totals.
\<close>

theorem calculateDefinitionDiff_totals:
  assumes "line def \<le> endLine def" and "safeClassification def hs"
  shows "scanHunks (line def) (endLine def) (0, 0) hs =
           (addedTotal (line def) (endLine def) hs, deletedTotal (line def) (endLine def) hs)
         \<and> (\<forall>r. calculateDefinitionDiff def hs = Some r \<longrightarrow>
                added r = addedTotal (line def) (endLine def) hs \<and>
                deleted r = deletedTotal (line def) (endLine def) hs)"
  by (auto simp: scanHunks_totals calculateDefinitionDiff_def Let_def split: if_splits)

theorem calculateDefinitionDiff_totals_witness:
  "scanHunks 10 15 (0, 0) [\<lparr>oldStart = 5, oldCount = 0, newStart = 10, newCount = 6\<rparr>] = (6, 0)
   \<and> calculateDefinitionDiff
        \<lparr>name = ''test'', line = 10, endLine = 15, deftype = ''function'', exported = False,
         diff = None\<rparr>
        [\<lparr>oldStart = 5, oldCount = 0, newStart = 10, newCount = 6\<rparr>]
      = Some \<lparr>added = 6, deleted = 0, status = Added\<rparr>"
proof -
  let ?d = "\<lparr>name = ''test'', line = 10, endLine = 15, deftype = ''function'',
             exported = False, diff = None\<rparr>"
  let ?hs = "[\<lparr>oldStart = 5, oldCount = 0, newStart = 10, newCount = 6\<rparr>]"
  have h: "line ?d \<le> endLine ?d" by simp
  have s: "safeClassification ?d ?hs"
    by (simp add: safeClassification_def safeStep_def isSafeInteger_def Let_def)
  have a: "addedTotal 10 15 ?hs = 6" by (simp add: addedTotal_def overlapLines_eq)
  have d: "deletedTotal 10 15 ?hs = 0" by (simp add: deletedTotal_def)
  have r: "calculateDefinitionDiff ?d ?hs = Some \<lparr>added = 6, deleted = 0, status = Added\<rparr>"
    by (simp add: calculateDefinitionDiff_def hunkStep_def Let_def)
  from calculateDefinitionDiff_totals [OF h s] a d r show ?thesis by simp
qed

text \<open>
  Claim C2. For a definition with \<open>line \<le> endLine\<close> and a hunk list on which the
  arithmetic of the code is exact, \<^verbatim>\<open>calculateDefinitionDiff\<close> returns \<^verbatim>\<open>null\<close> exactly
  when both totals are zero; otherwise it returns the two totals with status
  \<^verbatim>\<open>added\<close> if and only if the added total is at least \<open>endLine - line + 1\<close> and the
  deleted total is zero, and status \<^verbatim>\<open>updated\<close> otherwise.
\<close>

theorem calculateDefinitionDiff_status:
  assumes "line def \<le> endLine def" and "safeClassification def hs"
  shows "(calculateDefinitionDiff def hs = None \<longleftrightarrow>
            addedTotal (line def) (endLine def) hs = 0 \<and>
            deletedTotal (line def) (endLine def) hs = 0)
       \<and> (\<not> (addedTotal (line def) (endLine def) hs = 0 \<and>
               deletedTotal (line def) (endLine def) hs = 0) \<longrightarrow>
           calculateDefinitionDiff def hs =
             Some \<lparr>added = addedTotal (line def) (endLine def) hs,
                   deleted = deletedTotal (line def) (endLine def) hs,
                   status = (if addedTotal (line def) (endLine def) hs
                                  \<ge> endLine def - line def + 1
                                \<and> deletedTotal (line def) (endLine def) hs = 0
                             then Added else Updated)\<rparr>)"
  by (simp add: scanHunks_totals calculateDefinitionDiff_def Let_def)

theorem calculateDefinitionDiff_status_witness:
  "calculateDefinitionDiff
     \<lparr>name = ''test'', line = 10, endLine = 20, deftype = ''function'', exported = False,
      diff = None\<rparr>
     [\<lparr>oldStart = 12, oldCount = 2, newStart = 12, newCount = 4\<rparr>]
   = Some \<lparr>added = 4, deleted = 2, status = Updated\<rparr>"
proof -
  let ?d = "\<lparr>name = ''test'', line = 10, endLine = 20, deftype = ''function'',
             exported = False, diff = None\<rparr>"
  let ?hs = "[\<lparr>oldStart = 12, oldCount = 2, newStart = 12, newCount = 4\<rparr>]"
  have h: "line ?d \<le> endLine ?d" by simp
  have s: "safeClassification ?d ?hs"
    by (simp add: safeClassification_def safeStep_def isSafeInteger_def Let_def hunkStep_def)
  have a: "addedTotal 10 20 ?hs = 4" by (simp add: addedTotal_def overlapLines_eq)
  have d: "deletedTotal 10 20 ?hs = 2" by (simp add: deletedTotal_def touches_def)
  from calculateDefinitionDiff_status [OF h s] a d show ?thesis by simp
qed

section \<open>Attaching the diffs to the definitions\<close>

text \<open>
  Claim C9. \<^verbatim>\<open>applyDiffToDefinitions\<close> returns a list of the same length and order, in
  which every field of every definition other than \<^verbatim>\<open>diff\<close> is the field of the input
  definition; a \<^verbatim>\<open>diff\<close> is attached only when \<^verbatim>\<open>calculateDefinitionDiff\<close> has a
  result for that definition, and then it is that result; when the file diff is absent
  or has no hunks, the output is the input list.
\<close>

theorem applyDiffToDefinitions_frame:
  "length (applyDiffToDefinitions defs fileDiff) = length defs
   \<and> (\<forall>i < length defs.
        name (applyDiffToDefinitions defs fileDiff ! i) = name (defs ! i)
      \<and> line (applyDiffToDefinitions defs fileDiff ! i) = line (defs ! i)
      \<and> endLine (applyDiffToDefinitions defs fileDiff ! i) = endLine (defs ! i)
      \<and> deftype (applyDiffToDefinitions defs fileDiff ! i) = deftype (defs ! i)
      \<and> exported (applyDiffToDefinitions defs fileDiff ! i) = exported (defs ! i)
      \<and> Definition.more (applyDiffToDefinitions defs fileDiff ! i) = Definition.more (defs ! i)
      \<and> (applyDiffToDefinitions defs fileDiff ! i = defs ! i
          \<or> (\<exists>fd r. fileDiff = Some fd
                \<and> calculateDefinitionDiff (defs ! i) (hunks fd) = Some r
                \<and> applyDiffToDefinitions defs fileDiff ! i = (defs ! i)\<lparr>diff := Some r\<rparr>)))
   \<and> ((case fileDiff of None \<Rightarrow> True | Some fd \<Rightarrow> hunks fd = [])
        \<longrightarrow> applyDiffToDefinitions defs fileDiff = defs)"
proof (cases fileDiff)
  case None
  then show ?thesis by (simp add: applyDiffToDefinitions_def)
next
  case (Some fd)
  show ?thesis
  proof (cases "hunks fd = []")
    case True
    with Some show ?thesis by (simp add: applyDiffToDefinitions_def)
  next
    case False
    with Some have out: "applyDiffToDefinitions defs fileDiff =
        map (\<lambda>def. case calculateDefinitionDiff def (hunks fd) of
                      Some d \<Rightarrow> def\<lparr>diff := Some d\<rparr> | None \<Rightarrow> def) defs"
      by (simp add: applyDiffToDefinitions_def)
    show ?thesis
      unfolding out using Some False
      by (auto split: option.splits)
  qed
qed

theorem applyDiffToDefinitions_frame_witness:
  "length (applyDiffToDefinitions
     [\<lparr>name = ''f'', line = 10, endLine = 15, deftype = ''function'', exported = False,
       diff = None\<rparr>,
      \<lparr>name = ''g'', line = 30, endLine = 40, deftype = ''class'', exported = True,
       diff = None\<rparr>]
     (Some \<lparr>path = ''a.ts'',
            hunks = [\<lparr>oldStart = 5, oldCount = 0, newStart = 10, newCount = 6\<rparr>]\<rparr>)) = 2
   \<and> name (applyDiffToDefinitions
     [\<lparr>name = ''f'', line = 10, endLine = 15, deftype = ''function'', exported = False,
       diff = None\<rparr>,
      \<lparr>name = ''g'', line = 30, endLine = 40, deftype = ''class'', exported = True,
       diff = None\<rparr>]
     (Some \<lparr>path = ''a.ts'',
            hunks = [\<lparr>oldStart = 5, oldCount = 0, newStart = 10, newCount = 6\<rparr>]\<rparr>) ! 1) = ''g''"
proof -
  let ?defs = "[\<lparr>name = ''f'', line = 10, endLine = 15, deftype = ''function'',
                 exported = False, diff = None\<rparr>,
                \<lparr>name = ''g'', line = 30, endLine = 40, deftype = ''class'',
                 exported = True, diff = None\<rparr>]"
  let ?fd = "Some \<lparr>path = ''a.ts'',
                   hunks = [\<lparr>oldStart = 5, oldCount = 0, newStart = 10, newCount = 6\<rparr>]\<rparr>"
  have i: "(1::nat) < length ?defs" by simp
  from applyDiffToDefinitions_frame [of ?defs ?fd] i show ?thesis by simp
qed

section \<open>The hunk header parser\<close>

lemma isDigit_simps [simp]:
  "\<not> isDigit (CHR '','')" "\<not> isDigit (CHR '' '')" "\<not> isDigit (CHR ''+'')"
  "\<not> isDigit (CHR ''-'')" "\<not> isDigit (CHR ''@'')"
  by (simp_all add: isDigit_def)

lemma digit_not_space: "isDigit c \<Longrightarrow> \<not> isWhiteSpace c"
  by (auto simp: isDigit_def isWhiteSpace_def)

lemma digit_not_sign: "isDigit c \<Longrightarrow> c \<noteq> CHR ''+'' \<and> c \<noteq> CHR ''-''"
  by (auto simp: isDigit_def)

lemma takeWhile_run:
  assumes "list_all P a" and "r = [] \<or> \<not> P (hd r)"
  shows "takeWhile P (a @ r) = a" and "dropWhile P (a @ r) = r"
  using assms by (induction a) (auto simp: neq_Nil_conv takeWhile_eq_Nil_iff dropWhile_eq_self_iff)

lemma matchDigits_run:
  assumes "digitString a" and "r = [] \<or> \<not> isDigit (hd r)"
  shows "matchDigits (a @ r) = Some (a, r)"
  using assms takeWhile_run [of isDigit a r]
  by (simp add: matchDigits_def digitString_def Let_def)

lemma matchDigits_SomeD:
  assumes "matchDigits s = Some (ds, r)"
  shows "s = ds @ r" and "digitString ds" and "r = [] \<or> \<not> isDigit (hd r)"
proof -
  from assms have ds: "ds = takeWhile isDigit s" and r: "r = dropWhile isDigit s" and ne: "ds \<noteq> []"
    by (auto simp: matchDigits_def Let_def split: if_splits)
  show "s = ds @ r" by (simp add: ds r)
  show "digitString ds" using ne
    by (auto simp: digitString_def ds list_all_iff dest: set_takeWhileD)
  show "r = [] \<or> \<not> isDigit (hd r)" unfolding r
    using hd_dropWhile [of isDigit s] by blast
qed

lemma matchLit_append [simp]: "matchLit lit (lit @ r) = Some r"
  by (simp add: matchLit_def)

lemma matchLit_SomeD: "matchLit lit s = Some r \<Longrightarrow> s = lit @ r"
  by (auto simp: matchLit_def prefix_def split: if_splits)

lemma matchOptCount_run:
  assumes "optDigitString b"
  shows "matchOptCount (countText b @ CHR '' '' # r) = (b, CHR '' '' # r)"
proof (cases b)
  case None
  then show ?thesis by (simp add: matchOptCount_def countText_def matchLit_def)
next
  case (Some g)
  with assms have g: "digitString g" by (simp add: optDigitString_def)
  have "matchDigits (g @ CHR '' '' # r) = Some (g, CHR '' '' # r)"
    by (rule matchDigits_run [OF g]) simp
  with Some show ?thesis
    by (simp add: matchOptCount_def countText_def matchLit_def)
qed

lemma matchOptCount_D:
  assumes "matchOptCount s = (m, r)"
  shows "s = countText m @ r" and "optDigitString m"
proof -
  show "s = countText m @ r"
  proof (cases "matchLit '','' s")
    case None
    with assms show ?thesis by (simp add: matchOptCount_def countText_def)
  next
    case (Some x)
    note l = matchLit_SomeD [OF Some]
    show ?thesis
    proof (cases "matchDigits x")
      case None
      with Some assms show ?thesis by (simp add: matchOptCount_def countText_def)
    next
      case (Some p)
      obtain ds r' where p: "p = (ds, r')" by (cases p)
      with Some \<open>matchLit '','' s = Some x\<close> assms have "m = Some ds" "r = r'"
        by (simp_all add: matchOptCount_def)
      with matchDigits_SomeD(1) [of x ds r'] Some p l show ?thesis
        by (simp add: countText_def)
    qed
  qed
  show "optDigitString m"
    using assms
    by (auto simp: matchOptCount_def optDigitString_def
           split: option.splits dest: matchDigits_SomeD(2))
qed

lemma matchHunkAt_header:
  assumes "headerFields a b c d"
  shows "matchHunkAt (hunkHeaderText a b c d @ t) = Some (a, b, c, d)"
proof -
  from assms have a: "digitString a" and b: "optDigitString b"
    and c: "digitString c" and d: "optDigitString d"
    by (simp_all add: headerFields_def)
  let ?r5 = "countText d @ '' @@'' @ t"
  let ?r4 = "c @ ?r5"
  let ?r3 = "'' +'' @ ?r4"
  let ?r2 = "countText b @ ?r3"
  have s: "hunkHeaderText a b c d @ t = ''@@ -'' @ a @ ?r2"
    by (simp add: hunkHeaderText_def)
  have hd2: "?r2 = [] \<or> \<not> isDigit (hd ?r2)"
    by (cases b) (simp_all add: countText_def)
  have hd5: "?r5 = [] \<or> \<not> isDigit (hd ?r5)"
    by (cases d) (simp_all add: countText_def)
  have m1: "matchDigits (a @ ?r2) = Some (a, ?r2)" by (rule matchDigits_run [OF a hd2])
  have m2: "matchOptCount ?r2 = (b, ?r3)" using matchOptCount_run [OF b, of "''+'' @ ?r4"] by simp
  have m3: "matchDigits ?r4 = Some (c, ?r5)" by (rule matchDigits_run [OF c hd5])
  have m4: "matchOptCount ?r5 = (d, '' @@'' @ t)" using matchOptCount_run [OF d, of "''@@'' @ t"] by simp
  have l1: "matchLit ''@@ -'' (''@@ -'' @ a @ ?r2) = Some (a @ ?r2)" by (rule matchLit_append)
  have l2: "matchLit '' +'' ?r3 = Some ?r4" by (rule matchLit_append)
  have l3: "matchLit '' @@'' ('' @@'' @ t) = Some t" by (rule matchLit_append)
  show ?thesis
    unfolding s matchHunkAt_def l1 by (simp only: m1 m2 m3 m4 l2 l3 bind.simps prod.case)
qed

lemma matchHunkAt_SomeD:
  assumes "matchHunkAt s = Some (a, b, c, d)"
  shows "headerFields a b c d \<and> (\<exists>t. s = hunkHeaderText a b c d @ t)"
proof -
  from assms obtain r1 r2 r3 r4 r5 r6 r7 where
    l1: "matchLit ''@@ -'' s = Some r1" and m1: "matchDigits r1 = Some (a, r2)"
    and m2: "matchOptCount r2 = (b, r3)" and l2: "matchLit '' +'' r3 = Some r4"
    and m3: "matchDigits r4 = Some (c, r5)" and m4: "matchOptCount r5 = (d, r6)"
    and l3: "matchLit '' @@'' r6 = Some r7"
    by (auto simp: matchHunkAt_def split: Option.bind_splits prod.splits)
  have "s = hunkHeaderText a b c d @ r7"
    using matchLit_SomeD [OF l1] matchDigits_SomeD(1) [OF m1] matchOptCount_D(1) [OF m2]
      matchLit_SomeD [OF l2] matchDigits_SomeD(1) [OF m3] matchOptCount_D(1) [OF m4]
      matchLit_SomeD [OF l3]
    by (simp add: hunkHeaderText_def)
  moreover have "headerFields a b c d"
    using matchDigits_SomeD(2) [OF m1] matchOptCount_D(2) [OF m2]
      matchDigits_SomeD(2) [OF m3] matchOptCount_D(2) [OF m4]
    by (simp add: headerFields_def)
  ultimately show ?thesis by blast
qed

lemma matchHunk_start: "matchHunkAt s = Some m \<Longrightarrow> matchHunk s = Some m"
  by (cases s) simp_all

lemma matchHunk_SomeD: "matchHunk s = Some m \<Longrightarrow> \<exists>pre post. s = pre @ post \<and> matchHunkAt post = Some m"
proof (induction s)
  case Nil
  then show ?case by simp
next
  case (Cons c cs)
  show ?case
  proof (cases "matchHunkAt (c # cs)")
    case (Some m')
    with Cons.prems have "matchHunkAt (c # cs) = Some m" by simp
    then have "c # cs = [] @ (c # cs) \<and> matchHunkAt (c # cs) = Some m" by simp
    then show ?thesis by blast
  next
    case None
    with Cons.prems have "matchHunk cs = Some m" by simp
    from Cons.IH [OF this] obtain pre post where "cs = pre @ post" "matchHunkAt post = Some m"
      by blast
    then have "c # cs = (c # pre) @ post \<and> matchHunkAt post = Some m" by simp
    then show ?thesis by blast
  qed
qed

lemma matchHunk_later: "matchHunkAt post \<noteq> None \<Longrightarrow> matchHunk (pre @ post) \<noteq> None"
proof (induction pre)
  case Nil
  then show ?case by (cases post) auto
next
  case (Cons c pre)
  then show ?case by (cases "matchHunkAt (c # pre @ post)") auto
qed

lemma digitsVal_Nil: "digitsVal [] = 0"
  by (simp add: digitsVal_def)

lemma digitsVal_snoc: "digitsVal (ds @ [c]) = 10 * digitsVal ds + (of_char c - 48)"
  by (simp add: digitsVal_def)

lemma parseInt10_digits:
  assumes "digitString a"
  shows "parseInt10 a = Some (int (digitsVal a))"
proof -
  from assms obtain c cs where a: "a = c # cs" and c: "isDigit c" and all: "list_all isDigit a"
    by (cases a) (auto simp: digitString_def)
  have tw: "takeWhile isDigit a = a" using all by (simp add: list_all_iff)
  have dw: "dropWhile isWhiteSpace a = a" using a c by (simp add: digit_not_space)
  show ?thesis
    unfolding parseInt10_def dw using a digit_not_sign [OF c] tw
    by (simp add: Let_def)
qed

lemma countOr1_value: "optDigitString m \<Longrightarrow> countOr1 m = Some (countValue m)"
  by (cases m) (auto simp: countOr1_def countValue_def optDigitString_def parseInt10_digits digitString_def)

lemma parseHunkHeader_match:
  assumes "matchHunk ln = Some (a, b, c, d)"
  shows "parseHunkHeader ln =
     Some \<lparr>oldStart = int (digitsVal a), oldCount = countValue b,
           newStart = int (digitsVal c), newCount = countValue d\<rparr>"
proof -
  from matchHunk_SomeD [OF assms] obtain pre post where "matchHunkAt post = Some (a, b, c, d)"
    by blast
  then have "headerFields a b c d" using matchHunkAt_SomeD by blast
  then show ?thesis using assms
    by (simp add: parseHunkHeader_def headerFields_def parseInt10_digits countOr1_value)
qed

lemma parseHunkHeader_None_iff: "parseHunkHeader ln = None \<longleftrightarrow> matchHunk ln = None"
proof (cases "matchHunk ln")
  case None
  then show ?thesis by (simp add: parseHunkHeader_def)
next
  case (Some m)
  obtain a b c d where "m = (a, b, c, d)" by (cases m) 
  with Some parseHunkHeader_match [of ln a b c d] show ?thesis by simp
qed

lemma parseHunkHeader_nonneg: "parseHunkHeader ln = Some h \<Longrightarrow> nonNegHunk h"
proof -
  assume h: "parseHunkHeader ln = Some h"
  then obtain m where "matchHunk ln = Some m" by (cases "matchHunk ln") (auto simp: parseHunkHeader_def)
  moreover obtain a b c d where "m = (a, b, c, d)" by (cases m)
  ultimately have "parseHunkHeader ln =
     Some \<lparr>oldStart = int (digitsVal a), oldCount = countValue b,
           newStart = int (digitsVal c), newCount = countValue d\<rparr>"
    using parseHunkHeader_match by blast
  with h have "h = \<lparr>oldStart = int (digitsVal a), oldCount = countValue b,
           newStart = int (digitsVal c), newCount = countValue d\<rparr>" by simp
  then show ?thesis by (simp add: nonNegHunk_def countValue_def split: option.splits)
qed

lemma parseHunkHeader_Some_iff:
  "(parseHunkHeader ln \<noteq> None) =
     (\<exists>pre a b c d t. headerFields a b c d \<and> ln = pre @ hunkHeaderText a b c d @ t)"
proof
  assume "parseHunkHeader ln \<noteq> None"
  then have "matchHunk ln \<noteq> None" by (simp add: parseHunkHeader_None_iff)
  then obtain m where "matchHunk ln = Some m" by blast
  moreover obtain a b c d where "m = (a, b, c, d)" by (cases m)
  ultimately obtain pre post where "ln = pre @ post" "matchHunkAt post = Some (a, b, c, d)"
    using matchHunk_SomeD by blast
  with matchHunkAt_SomeD [of post a b c d]
  show "\<exists>pre a b c d t. headerFields a b c d \<and> ln = pre @ hunkHeaderText a b c d @ t"
    by blast
next
  assume "\<exists>pre a b c d t. headerFields a b c d \<and> ln = pre @ hunkHeaderText a b c d @ t"
  then obtain pre a b c d t where f: "headerFields a b c d"
    and ln: "ln = pre @ hunkHeaderText a b c d @ t" by blast
  have "matchHunkAt (hunkHeaderText a b c d @ t) \<noteq> None"
    using matchHunkAt_header [OF f, of t] by simp
  then have "matchHunk ln \<noteq> None" unfolding ln by (rule matchHunk_later)
  then show "parseHunkHeader ln \<noteq> None" by (simp add: parseHunkHeader_None_iff)
qed

text \<open>
  Claim C8. For every line that matches the grammar
  \<^verbatim>\<open>@@ -<oldStart>[,<oldCount>] +<newStart>[,<newCount>] @@<trailing text>\<close> and whose four
  numbers are safe integers (below \<open>2^53\<close>, where \<^verbatim>\<open>parseInt\<close> is exact),
  \<^verbatim>\<open>parseHunkHeader\<close> returns the values of the four fields, and a count that is left
  out is 1. The header \<^verbatim>\<open>@@ -10 +12,7 @@\<close> of the specification is the instance below.
\<close>

theorem parseHunkHeader_grammar:
  assumes "headerFields a b c d"
    and "isSafeInteger (int (digitsVal a))" and "isSafeInteger (countValue b)"
    and "isSafeInteger (int (digitsVal c))" and "isSafeInteger (countValue d)"
  shows "parseHunkHeader (hunkHeaderText a b c d @ t) =
     Some \<lparr>oldStart = int (digitsVal a), oldCount = countValue b,
           newStart = int (digitsVal c), newCount = countValue d\<rparr>
     \<and> countValue None = 1"
proof -
  have "matchHunk (hunkHeaderText a b c d @ t) = Some (a, b, c, d)"
    by (rule matchHunk_start, rule matchHunkAt_header, rule assms(1))
  then show ?thesis by (simp add: parseHunkHeader_match countValue_def)
qed

theorem parseHunkHeader_grammar_witness:
  "parseHunkHeader ''@@ -10 +12,7 @@'' =
     Some \<lparr>oldStart = 10, oldCount = 1, newStart = 12, newCount = 7\<rparr>"
proof -
  have f: "headerFields ''10'' None ''12'' (Some ''7'')"
    by (simp add: headerFields_def digitString_def optDigitString_def isDigit_def)
  have v: "digitsVal ''10'' = 10" "digitsVal ''12'' = 12" "digitsVal ''7'' = 7"
    by (simp_all add: digitsVal_def)
  have s: "isSafeInteger (int (digitsVal ''10''))" "isSafeInteger (countValue None)"
    "isSafeInteger (int (digitsVal ''12''))" "isSafeInteger (countValue (Some ''7''))"
    by (simp_all add: v isSafeInteger_def countValue_def)
  from parseHunkHeader_grammar [OF f s, of "[]"] v show ?thesis
    by (simp add: hunkHeaderText_def countText_def countValue_def)
qed

text \<open>
  Claim C3, as amended. The pattern of \<^verbatim>\<open>parseHunkHeader\<close> has no anchor:
  \<^verbatim>\<open>line.match\<close> searches the whole line. The parser returns a hunk record if and only
  if the line holds, at any position, a piece of the form
  \<^verbatim>\<open>@@ -<oldStart>[,<oldCount>] +<newStart>[,<newCount>] @@\<close>; on every other line,
  among them \<^verbatim>\<open>not a hunk\<close>, the empty line and \<^verbatim>\<open>@@@ invalid @@@\<close>, it returns
  \<^verbatim>\<open>null\<close>. It is a total function: no input makes it throw.
\<close>

theorem parseHunkHeader_anywhere:
  "(parseHunkHeader ln \<noteq> None) =
     (\<exists>pre a b c d t. headerFields a b c d \<and> ln = pre @ hunkHeaderText a b c d @ t)
   \<and> parseHunkHeader ''not a hunk'' = None
   \<and> parseHunkHeader '''' = None
   \<and> parseHunkHeader ''@@@ invalid @@@'' = None"
proof -
  have e1: "parseHunkHeader ''not a hunk'' = None" by code_simp
  have e2: "parseHunkHeader '''' = None" by code_simp
  have e3: "parseHunkHeader ''@@@ invalid @@@'' = None" by code_simp
  show ?thesis using e1 e2 e3 parseHunkHeader_Some_iff [of ln] by simp
qed

theorem parseHunkHeader_anywhere_witness:
  "\<exists>pre a b c d t. headerFields a b c d
      \<and> ''@@ x @@ -3,4 +5 @@ f()'' = pre @ hunkHeaderText a b c d @ t"
proof -
  have "parseHunkHeader ''@@ x @@ -3,4 +5 @@ f()'' \<noteq> None" by code_simp
  with parseHunkHeader_anywhere [of "''@@ x @@ -3,4 +5 @@ f()''"] show ?thesis by blast
qed

text \<open>
  The claim as it was stated, with the pattern anchored at the beginning of the line,
  fails: this line does not begin with \<^verbatim>\<open>@@\<close> and is parsed all the same.
\<close>

theorem parseHunkHeader_anchored_counterexample:
  "\<not> prefix ''@@'' ''x@@ -1 +1 @@''
   \<and> parseHunkHeader ''x@@ -1 +1 @@'' =
       Some \<lparr>oldStart = 1, oldCount = 1, newStart = 1, newCount = 1\<rparr>"
  by code_simp

section \<open>The numstat parser\<close>

lemma trim_Nil_iff: "trim s = [] \<longleftrightarrow> (\<forall>c \<in> set s. isWhiteSpace c)"
proof
  assume "trim s = []"
  then have "dropWhile isWhiteSpace (rev (dropWhile isWhiteSpace s)) = []"
    by (simp add: trim_def)
  then have all: "\<forall>c \<in> set (dropWhile isWhiteSpace s). isWhiteSpace c"
    by (simp add: dropWhile_eq_Nil_conv)
  have "dropWhile isWhiteSpace s = []"
  proof (rule ccontr)
    assume ne: "dropWhile isWhiteSpace s \<noteq> []"
    then have "\<not> isWhiteSpace (hd (dropWhile isWhiteSpace s))" by (rule hd_dropWhile)
    moreover have "hd (dropWhile isWhiteSpace s) \<in> set (dropWhile isWhiteSpace s)"
      using ne by (rule hd_in_set)
    ultimately show False using all by blast
  qed
  then show "\<forall>c \<in> set s. isWhiteSpace c" by (simp add: dropWhile_eq_Nil_conv)
next
  assume "\<forall>c \<in> set s. isWhiteSpace c"
  then have e: "dropWhile isWhiteSpace s = []" by (simp add: dropWhile_eq_Nil_conv)
  show "trim s = []" unfolding trim_def e by simp
qed

lemma splitOn_nonempty [simp]: "splitOn sep s \<noteq> []"
  by (induction s) (auto split: list.splits)

lemma splitOn_chars: "l \<in> set (splitOn sep s) \<Longrightarrow> set l \<subseteq> set s"
proof (induction s arbitrary: l)
  case Nil
  then show ?case by simp
next
  case (Cons c cs)
  show ?case
  proof (cases "c = sep")
    case True
    with Cons.prems have "l = [] \<or> l \<in> set (splitOn sep cs)" by simp
    with Cons.IH show ?thesis by auto
  next
    case False
    obtain w ws where sp: "splitOn sep cs = w # ws"
      using splitOn_nonempty [of sep cs] by (cases "splitOn sep cs") auto
    with False Cons.prems have "l = c # w \<or> l \<in> set ws" by simp
    moreover have "set w \<subseteq> set cs" using Cons.IH [of w] sp by simp
    moreover have "l \<in> set ws \<Longrightarrow> set l \<subseteq> set cs" using Cons.IH [of l] sp by simp
    ultimately show ?thesis by auto
  qed
qed

lemma parseInt10_blank:
  assumes "\<forall>c \<in> set a. isWhiteSpace c"
  shows "parseInt10 a = None"
proof -
  from assms have e: "dropWhile isWhiteSpace a = []" by (simp add: dropWhile_eq_Nil_conv)
  show ?thesis unfolding parseInt10_def e by simp
qed

lemma parseInt10_nonneg:
  assumes "\<not> signedField s" and "parseInt10 s = Some n"
  shows "0 \<le> n"
  using assms
  by (cases "dropWhile isWhiteSpace s")
     (auto simp: parseInt10_def signedField_def Let_def split: if_splits)

lemma numstatRow_blank:
  assumes "trim ln = []"
  shows "numstatRow ln = None"
proof (cases "splitOn TAB ln")
  case Nil
  then show ?thesis by (simp add: numstatRow_def)
next
  case (Cons a rest)
  then have "a \<in> set (splitOn TAB ln)" by simp
  then have "set a \<subseteq> set ln" by (rule splitOn_chars)
  with assms have "\<forall>c \<in> set a. isWhiteSpace c" by (auto simp: trim_Nil_iff)
  then have "parseInt10 a = None" by (rule parseInt10_blank)
  with Cons show ?thesis by (simp add: numstatRow_def split: list.splits)
qed

lemma numstatStep_row:
  "numstatStep stats ln =
     (case numstatRow ln of None \<Rightarrow> stats | Some r \<Rightarrow> AList.update (fst r) (snd r) stats)"
proof (cases "trim ln = []")
  case True
  then show ?thesis by (simp add: numstatStep_def numstatRow_blank)
next
  case False
  show ?thesis
  proof (cases "length (splitOn TAB ln) < 3")
    case True
    then have "numstatRow ln = None"
      by (auto simp: numstatRow_def split: list.splits)
    with True False show ?thesis by (simp add: numstatStep_def Let_def)
  next
    case ge: False
    then obtain a r1 where s1: "splitOn TAB ln = a # r1"
      by (cases "splitOn TAB ln") auto
    with ge obtain d r2 where s2: "r1 = d # r2" by (cases r1) auto
    from ge s1 s2 obtain p ps where s3: "r2 = p # ps" by (cases r2) auto
    from s1 s2 s3 have sp: "splitOn TAB ln = a # d # p # ps" by simp
    show ?thesis using False sp
      by (simp add: numstatStep_def numstatRow_def Let_def split: option.splits)
  qed
qed

lemma foldl_numstatStep:
  "foldl numstatStep m lns =
     foldl (\<lambda>m r. AList.update (fst r) (snd r) m) m (List.map_filter numstatRow lns)"
proof (induction lns arbitrary: m)
  case Nil
  show ?case by (simp add: List.map_filter_simps)
next
  case (Cons ln lns)
  have "foldl numstatStep m (ln # lns) = foldl numstatStep (numstatStep m ln) lns" by simp
  also have "\<dots> = foldl (\<lambda>m r. AList.update (fst r) (snd r) m) (numstatStep m ln)
                      (List.map_filter numstatRow lns)"
    by (rule Cons.IH)
  also have "\<dots> = foldl (\<lambda>m r. AList.update (fst r) (snd r) m) m
                      (List.map_filter numstatRow (ln # lns))"
    by (cases "numstatRow ln") (simp_all add: numstatStep_row List.map_filter_simps)
  finally show ?case .
qed

lemma map_filter_all_None:
  "(\<forall>x \<in> set xs. f x = None) \<Longrightarrow> List.map_filter f xs = []"
  by (induction xs) (simp_all add: List.map_filter_simps)

lemma blank_lines:
  assumes "trim text = []" and "ln \<in> set (splitOn sep text)"
  shows "trim ln = []"
  using assms splitOn_chars [of ln sep "text"] by (auto simp: trim_Nil_iff)

lemma parseNumstat_rows: "parseNumstat text = insertAll (numstatRows text)"
proof (cases "trim text = []")
  case True
  then have "\<forall>ln \<in> set (splitOn LF text). numstatRow ln = None"
    using blank_lines numstatRow_blank by blast
  then have "numstatRows text = []" unfolding numstatRows_def by (rule map_filter_all_None)
  with True show ?thesis by (simp add: parseNumstat_def insertAll_def)
next
  case False
  then show ?thesis
    by (simp add: parseNumstat_def insertAll_def numstatRows_def foldl_numstatStep)
qed

lemma map_of_foldl_update:
  "map_of (foldl (\<lambda>m r. AList.update (fst r) (snd r) m) m rows) k =
     (case rowsFor k rows of [] \<Rightarrow> map_of m k | r # rs \<Rightarrow> Some (snd (last (r # rs))))"
proof (induction rows arbitrary: m)
  case Nil
  show ?case by (simp add: rowsFor_def)
next
  case (Cons r rows)
  show ?case
  proof (cases "fst r = k")
    case True
    then show ?thesis
      by (cases "rowsFor k rows") (simp_all add: Cons.IH rowsFor_def update_conv')
  next
    case False
    then show ?thesis
      by (simp add: Cons.IH rowsFor_def update_conv' split: list.splits)
  qed
qed

lemma map_of_insertAll:
  "map_of (insertAll rows) k =
     (case rowsFor k rows of [] \<Rightarrow> None | r # rs \<Rightarrow> Some (snd (last (r # rs))))"
  by (simp add: insertAll_def map_of_foldl_update split: list.splits)

lemma set_update_subset: "set (AList.update k v m) \<subseteq> insert (k, v) (set m)"
  by (induction m) auto

lemma set_foldl_update:
  "set (foldl (\<lambda>m r. AList.update (fst r) (snd r) m) m rows) \<subseteq> set m \<union> set rows"
proof (induction rows arbitrary: m)
  case Nil
  show ?case by simp
next
  case (Cons r rows)
  have "set (AList.update (fst r) (snd r) m) \<subseteq> insert r (set m)"
    using set_update_subset [of "fst r" "snd r" m] by simp
  with Cons.IH [of "AList.update (fst r) (snd r) m"] show ?case by auto
qed

lemma set_insertAll: "set (insertAll rows) \<subseteq> set rows"
  using set_foldl_update [of "[]" rows] by (simp add: insertAll_def)

lemma distinct_foldl_update:
  "distinct (map fst m) \<Longrightarrow>
   distinct (map fst (foldl (\<lambda>m r. AList.update (fst r) (snd r) m) m rows))"
  by (induction rows arbitrary: m) (simp_all add: distinct_update)

lemma distinct_insertAll: "distinct (map fst (insertAll rows))"
  by (simp add: insertAll_def distinct_foldl_update)

lemma set_map_filter: "set (List.map_filter f xs) = {y. \<exists>x \<in> set xs. f x = Some y}"
  by (induction xs) (auto simp: List.map_filter_simps split: option.splits)

lemma numstatRow_SomeD:
  assumes "numstatRow ln = Some e"
  shows "\<exists>a d p ps. splitOn TAB ln = a # d # p # ps \<and> a \<noteq> ''-'' \<and> d \<noteq> ''-''
           \<and> parseInt10 a = Some (added (snd e))
           \<and> parseInt10 d = Some (deleted (snd e))
           \<and> \<not> (added (snd e) = 0 \<and> deleted (snd e) = 0)"
  using assms
  by (auto simp: numstatRow_def split: list.splits option.splits if_splits)

lemma numstatRow_fields:
  assumes "splitOn TAB ln = a # d # rest"
  shows "numstatRow ln =
     (if rest = [] \<or> a = ''-'' \<or> d = ''-'' then None
      else case parseInt10 a of
             None \<Rightarrow> None
           | Some x \<Rightarrow> (case parseInt10 d of
               None \<Rightarrow> None
             | Some y \<Rightarrow> if x = 0 \<and> y = 0 then None
                         else Some (normalizePath (joinWith TAB rest),
                                    \<lparr>added = x, deleted = y\<rparr>)))"
  using assms by (cases rest) (auto simp: numstatRow_def split: option.splits)

lemma splitOn_sep: "sep \<notin> set a \<Longrightarrow> splitOn sep (a @ sep # r) = a # splitOn sep r"
  by (induction a) auto

lemma joinWith_Cons: "ws \<noteq> [] \<Longrightarrow> joinWith sep (w # ws) = w @ sep # joinWith sep ws"
  by (cases ws) simp_all

lemma joinWith_splitOn: "joinWith sep (splitOn sep s) = s"
proof (induction s)
  case Nil
  show ?case by simp
next
  case (Cons c cs)
  obtain w ws where sp: "splitOn sep cs = w # ws"
    using splitOn_nonempty [of sep cs] by (cases "splitOn sep cs") auto
  show ?case
  proof (cases "c = sep")
    case True
    then show ?thesis using Cons.IH by (simp add: joinWith_Cons)
  next
    case False
    show ?thesis
    proof (cases ws)
      case Nil
      with False sp Cons.IH show ?thesis by simp
    next
      case (Cons v vs)
      with False sp Cons.IH show ?thesis by simp
    qed
  qed
qed

lemma replaceAll_Nil [simp]: "replaceAll pat rep [] = []"
  by (subst replaceAll.simps) simp

lemma unescapeQuotes_replaceAll:
  "unescapeQuotes s = replaceAll [BACKSLASH, DQUOTE] [DQUOTE] s"
  apply (induction s rule: unescapeQuotes.induct)
  subgoal by (subst replaceAll.simps) auto
  subgoal by simp
  subgoal by (subst replaceAll.simps) simp
  done

lemma unescapeBackslashes_replaceAll:
  "unescapeBackslashes s = replaceAll [BACKSLASH, BACKSLASH] [BACKSLASH] s"
  apply (induction s rule: unescapeBackslashes.induct)
  subgoal by (subst replaceAll.simps) auto
  subgoal by simp
  subgoal by (subst replaceAll.simps) simp
  done

lemma normalizePath_unquoted: "\<not> quoted p \<Longrightarrow> normalizePath p = map toSlash p"
  unfolding normalizePath_def quoted_def Let_def toSlash_def by auto

lemma normalizePath_quoted:
  "normalizePath (DQUOTE # body @ [DQUOTE]) =
     map toSlash (replaceAll [BACKSLASH, BACKSLASH] [BACKSLASH]
                    (replaceAll [BACKSLASH, DQUOTE] [DQUOTE] body))"
  unfolding normalizePath_def Let_def toSlash_def
  by (simp add: unescapeQuotes_replaceAll unescapeBackslashes_replaceAll butlast_append)

lemma normalizePath_quote: "normalizePath [DQUOTE] = []"
  by (simp add: normalizePath_def)

lemma normalizePath_no_backslash: "BACKSLASH \<notin> set (normalizePath p)"
  by (auto simp: normalizePath_def Let_def)

lemma numstatStep_line:
  assumes "TAB \<notin> set a" and "TAB \<notin> set d" and "a \<noteq> ''-''" and "d \<noteq> ''-''"
    and "parseInt10 a = Some x" and "parseInt10 d = Some y" and "\<not> (x = 0 \<and> y = 0)"
  shows "numstatStep m (a @ [TAB] @ d @ [TAB] @ p) =
           AList.update (normalizePath p) \<lparr>added = x, deleted = y\<rparr> m"
proof -
  have sp: "splitOn TAB (a @ [TAB] @ d @ [TAB] @ p) = a # d # splitOn TAB p"
    using assms(1,2) by (simp add: splitOn_sep)
  have ne: "splitOn TAB p \<noteq> []" by simp
  show ?thesis
    unfolding numstatStep_row numstatRow_fields [OF sp]
    using assms ne by (auto simp: joinWith_splitOn)
qed

lemma parseInt10_Some_iff:
  "(parseInt10 s \<noteq> None) =
     (\<exists>ws sg ds rest. s = ws @ sg @ ds @ rest \<and> list_all isWhiteSpace ws
        \<and> (sg = [] \<or> sg = ''+'' \<or> sg = ''-'') \<and> digitString ds)"
proof
  assume p: "parseInt10 s \<noteq> None"
  let ?ws = "takeWhile isWhiteSpace s"
  let ?S = "dropWhile isWhiteSpace s"
  let ?sg = "if ?S \<noteq> [] \<and> (hd ?S = CHR ''+'' \<or> hd ?S = CHR ''-'') then [hd ?S] else []"
  let ?S' = "if ?S \<noteq> [] \<and> (hd ?S = CHR ''+'' \<or> hd ?S = CHR ''-'') then tl ?S else ?S"
  let ?ds = "takeWhile isDigit ?S'"
  let ?rest = "dropWhile isDigit ?S'"
  from p have ne: "?ds \<noteq> []" by (auto simp: parseInt10_def Let_def split: if_splits)
  have "?S = ?sg @ ?S'" by (cases ?S) auto
  then have "s = ?ws @ ?sg @ ?ds @ ?rest"
    by (metis takeWhile_dropWhile_id)
  moreover have "list_all isWhiteSpace ?ws" by (auto simp: list_all_iff dest: set_takeWhileD)
  moreover have "?sg = [] \<or> ?sg = ''+'' \<or> ?sg = ''-''" by auto
  moreover have "digitString ?ds" using ne
    by (auto simp: digitString_def list_all_iff dest: set_takeWhileD)
  ultimately show "\<exists>ws sg ds rest. s = ws @ sg @ ds @ rest \<and> list_all isWhiteSpace ws
        \<and> (sg = [] \<or> sg = ''+'' \<or> sg = ''-'') \<and> digitString ds"
    by blast
next
  assume "\<exists>ws sg ds rest. s = ws @ sg @ ds @ rest \<and> list_all isWhiteSpace ws
        \<and> (sg = [] \<or> sg = ''+'' \<or> sg = ''-'') \<and> digitString ds"
  then obtain ws sg ds rest where s: "s = ws @ sg @ ds @ rest" and ws: "list_all isWhiteSpace ws"
    and sg: "sg = [] \<or> sg = ''+'' \<or> sg = ''-''" and ds: "digitString ds" by blast
  from ds obtain c cs where c: "ds = c # cs" "isDigit c" by (cases ds) (auto simp: digitString_def)
  have "\<not> isWhiteSpace c" using c(2) by (rule digit_not_space)
  moreover have "\<not> isWhiteSpace (CHR ''+'')" "\<not> isWhiteSpace (CHR ''-'')"
    by (simp_all add: isWhiteSpace_def)
  ultimately have nws: "\<not> isWhiteSpace (hd (sg @ ds @ rest))"
    using sg c(1) by auto
  have "sg @ ds @ rest \<noteq> []" using c by simp
  with nws ws have S: "dropWhile isWhiteSpace s = sg @ ds @ rest"
    unfolding s using takeWhile_run(2) [of isWhiteSpace ws "sg @ ds @ rest"] by simp
  have tw: "takeWhile isDigit (ds @ rest) \<noteq> []" using c by simp
  show "parseInt10 s \<noteq> None"
    unfolding parseInt10_def S using sg c tw digit_not_sign [OF c(2)]
    by (auto simp: Let_def)
qed

text \<open>
  Claim C5. In the loop of \<^verbatim>\<open>parseNumstat\<close>, a line with at least three fields is
  skipped when one of its two count fields is the literal \<^verbatim>\<open>-\<close>, when \<^verbatim>\<open>parseInt\<close>
  gives \<^verbatim>\<open>NaN\<close> on one of them, or when both counts are zero; every other such line is
  inserted under the normalized path, which is the remaining fields joined by tabs again.
  So a line \<open>a TAB d TAB p\<close>, with no tab in \<open>a\<close> and \<open>d\<close>, is keyed by the normalization
  of all of \<open>p\<close>, tabs included. Normalization turns every backslash of a token that is
  not quoted into a slash; of a quoted token it takes the inside, replaces each backslash
  with a double quote after it by the double quote, then each pair of backslashes by one
  backslash, and then turns the backslashes that are left into slashes. A count field
  fails to parse exactly when it is not made of white space, then at most one sign, then
  at least one digit, then anything: \<^verbatim>\<open>12abc\<close> parses as 12, and a run of digits
  below \<open>2^53\<close> as its value.
  The result is the rows of the text inserted in order, it has one entry for each path,
  and a path that stands on several rows is bound to the counts of the last of them.
\<close>

theorem parseNumstat_rows_later_wins:
  "(\<forall>m ln a d rest. splitOn TAB ln = a # d # rest \<longrightarrow>
      (a = ''-'' \<or> d = ''-'' \<longrightarrow> numstatStep m ln = m)
    \<and> (parseInt10 a = None \<or> parseInt10 d = None \<longrightarrow> numstatStep m ln = m)
    \<and> (parseInt10 a = Some 0 \<and> parseInt10 d = Some 0 \<longrightarrow> numstatStep m ln = m)
    \<and> (\<forall>x y. rest \<noteq> [] \<and> a \<noteq> ''-'' \<and> d \<noteq> ''-'' \<and> parseInt10 a = Some x
           \<and> parseInt10 d = Some y \<and> \<not> (x = 0 \<and> y = 0) \<longrightarrow>
         numstatStep m ln =
           AList.update (normalizePath (joinWith TAB rest)) \<lparr>added = x, deleted = y\<rparr> m))
   \<and> (\<forall>m a d p x y. TAB \<notin> set a \<and> TAB \<notin> set d \<and> a \<noteq> ''-'' \<and> d \<noteq> ''-''
         \<and> parseInt10 a = Some x \<and> parseInt10 d = Some y \<and> \<not> (x = 0 \<and> y = 0) \<longrightarrow>
       numstatStep m (a @ [TAB] @ d @ [TAB] @ p) =
         AList.update (normalizePath p) \<lparr>added = x, deleted = y\<rparr> m)
   \<and> (\<forall>p. \<not> quoted p \<longrightarrow> normalizePath p = map toSlash p)
   \<and> (\<forall>body. normalizePath (DQUOTE # body @ [DQUOTE]) =
         map toSlash (replaceAll [BACKSLASH, BACKSLASH] [BACKSLASH]
                        (replaceAll [BACKSLASH, DQUOTE] [DQUOTE] body)))
   \<and> normalizePath [DQUOTE] = []
   \<and> (\<forall>s. (parseInt10 s = None) =
         (\<not> (\<exists>ws sg ds rest. s = ws @ sg @ ds @ rest \<and> list_all isWhiteSpace ws
               \<and> (sg = [] \<or> sg = ''+'' \<or> sg = ''-'') \<and> digitString ds)))
   \<and> parseInt10 ''12abc'' = Some 12
   \<and> (\<forall>ds. digitString ds \<and> isSafeInteger (int (digitsVal ds)) \<longrightarrow>
         parseInt10 ds = Some (int (digitsVal ds)))
   \<and> parseNumstat text = insertAll (numstatRows text)
   \<and> distinct (map fst (parseNumstat text))
   \<and> (\<forall>p. map_of (parseNumstat text) p =
        (case rowsFor p (numstatRows text) of
           [] \<Rightarrow> None
         | r # rs \<Rightarrow> Some (snd (last (r # rs)))))"
proof -
  have c_step: "\<forall>m ln a d rest. splitOn TAB ln = a # d # rest \<longrightarrow>
      (a = ''-'' \<or> d = ''-'' \<longrightarrow> numstatStep m ln = m)
    \<and> (parseInt10 a = None \<or> parseInt10 d = None \<longrightarrow> numstatStep m ln = m)
    \<and> (parseInt10 a = Some 0 \<and> parseInt10 d = Some 0 \<longrightarrow> numstatStep m ln = m)
    \<and> (\<forall>x y. rest \<noteq> [] \<and> a \<noteq> ''-'' \<and> d \<noteq> ''-'' \<and> parseInt10 a = Some x
           \<and> parseInt10 d = Some y \<and> \<not> (x = 0 \<and> y = 0) \<longrightarrow>
         numstatStep m ln =
           AList.update (normalizePath (joinWith TAB rest)) \<lparr>added = x, deleted = y\<rparr> m)"
  proof (intro allI impI)
    fix m ln a d rest
    assume sp: "splitOn TAB ln = a # d # rest"
    show "(a = ''-'' \<or> d = ''-'' \<longrightarrow> numstatStep m ln = m)
    \<and> (parseInt10 a = None \<or> parseInt10 d = None \<longrightarrow> numstatStep m ln = m)
    \<and> (parseInt10 a = Some 0 \<and> parseInt10 d = Some 0 \<longrightarrow> numstatStep m ln = m)
    \<and> (\<forall>x y. rest \<noteq> [] \<and> a \<noteq> ''-'' \<and> d \<noteq> ''-'' \<and> parseInt10 a = Some x
           \<and> parseInt10 d = Some y \<and> \<not> (x = 0 \<and> y = 0) \<longrightarrow>
         numstatStep m ln =
           AList.update (normalizePath (joinWith TAB rest)) \<lparr>added = x, deleted = y\<rparr> m)"
      unfolding numstatStep_row numstatRow_fields [OF sp]
      by (auto split: option.splits)
  qed
  have c_key: "\<forall>m a d p x y. TAB \<notin> set a \<and> TAB \<notin> set d \<and> a \<noteq> ''-'' \<and> d \<noteq> ''-''
         \<and> parseInt10 a = Some x \<and> parseInt10 d = Some y \<and> \<not> (x = 0 \<and> y = 0) \<longrightarrow>
       numstatStep m (a @ [TAB] @ d @ [TAB] @ p) =
         AList.update (normalizePath p) \<lparr>added = x, deleted = y\<rparr> m"
  proof (intro allI impI)
    fix m a d p x y
    assume "TAB \<notin> set a \<and> TAB \<notin> set d \<and> a \<noteq> ''-'' \<and> d \<noteq> ''-''
         \<and> parseInt10 a = Some x \<and> parseInt10 d = Some y \<and> \<not> (x = 0 \<and> y = 0)"
    then show "numstatStep m (a @ [TAB] @ d @ [TAB] @ p) =
         AList.update (normalizePath p) \<lparr>added = x, deleted = y\<rparr> m"
      using numstatStep_line [of a d x y m p] by simp
  qed
  have c_unq: "\<forall>p. \<not> quoted p \<longrightarrow> normalizePath p = map toSlash p"
    by (simp add: normalizePath_unquoted)
  have c_quo: "\<forall>body. normalizePath (DQUOTE # body @ [DQUOTE]) =
         map toSlash (replaceAll [BACKSLASH, BACKSLASH] [BACKSLASH]
                        (replaceAll [BACKSLASH, DQUOTE] [DQUOTE] body))"
    by (intro allI) (rule normalizePath_quoted)
  have c_fail: "\<forall>s. (parseInt10 s = None) =
         (\<not> (\<exists>ws sg ds rest. s = ws @ sg @ ds @ rest \<and> list_all isWhiteSpace ws
               \<and> (sg = [] \<or> sg = ''+'' \<or> sg = ''-'') \<and> digitString ds))"
  proof
    fix s
    show "(parseInt10 s = None) =
         (\<not> (\<exists>ws sg ds rest. s = ws @ sg @ ds @ rest \<and> list_all isWhiteSpace ws
               \<and> (sg = [] \<or> sg = ''+'' \<or> sg = ''-'') \<and> digitString ds))"
      unfolding parseInt10_Some_iff [of s, symmetric] by simp
  qed
  have c_ex: "parseInt10 ''12abc'' = Some 12" by code_simp
  have c_val: "\<forall>ds. digitString ds \<and> isSafeInteger (int (digitsVal ds)) \<longrightarrow>
         parseInt10 ds = Some (int (digitsVal ds))"
    by (simp add: parseInt10_digits)
  have c_eq: "parseNumstat text = insertAll (numstatRows text)" by (rule parseNumstat_rows)
  have c_dist: "distinct (map fst (parseNumstat text))"
    by (simp add: parseNumstat_rows distinct_insertAll)
  have c_look: "\<forall>p. map_of (parseNumstat text) p =
        (case rowsFor p (numstatRows text) of
           [] \<Rightarrow> None
         | r # rs \<Rightarrow> Some (snd (last (r # rs))))"
    by (simp add: parseNumstat_rows map_of_insertAll)
  show ?thesis
    by (intro conjI c_step c_key c_unq c_quo normalizePath_quote c_fail c_ex c_val c_eq c_dist c_look)
qed

theorem parseNumstat_rows_later_wins_witness:
  "numstatStep [(''src/lib'' @ [TAB] @ ''name.ts'', \<lparr>added = 10, deleted = 5\<rparr>)]
     (''3'' @ [TAB] @ ''1'' @ [TAB] @ ''src'' @ [BACKSLASH] @ ''lib'' @ [TAB] @ ''name.ts'') =
     [(''src/lib'' @ [TAB] @ ''name.ts'', \<lparr>added = 3, deleted = 1\<rparr>)]
   \<and> map_of (parseNumstat
        (''10'' @ [TAB] @ ''5'' @ [TAB] @ ''src'' @ [BACKSLASH] @ ''lib'' @ [TAB] @ ''name.ts'' @ [LF] @
         ''-'' @ [TAB] @ ''-'' @ [TAB] @ ''image.png'' @ [LF] @
         ''3'' @ [TAB] @ ''1'' @ [TAB] @ ''src'' @ [BACKSLASH] @ ''lib'' @ [TAB] @ ''name.ts''))
       (''src/lib'' @ [TAB] @ ''name.ts'') = Some \<lparr>added = 3, deleted = 1\<rparr>
   \<and> normalizePath ([DQUOTE] @ ''a b'' @ [BACKSLASH, DQUOTE] @ ''c'' @ [BACKSLASH, BACKSLASH] @ ''d'' @ [DQUOTE])
       = ''a b'' @ [DQUOTE] @ ''c/d''"
proof -
  let ?p = "''src'' @ [BACKSLASH] @ ''lib'' @ [TAB] @ ''name.ts''"
  let ?k = "''src/lib'' @ [TAB] @ ''name.ts''"
  let ?t = "''10'' @ [TAB] @ ''5'' @ [TAB] @ ''src'' @ [BACKSLASH] @ ''lib'' @ [TAB] @ ''name.ts'' @ [LF] @
         ''-'' @ [TAB] @ ''-'' @ [TAB] @ ''image.png'' @ [LF] @
         ''3'' @ [TAB] @ ''1'' @ [TAB] @ ''src'' @ [BACKSLASH] @ ''lib'' @ [TAB] @ ''name.ts''"
  let ?m = "[(?k, \<lparr>added = 10, deleted = 5\<rparr>)]"
  note T = parseNumstat_rows_later_wins [of ?t]
  have h: "TAB \<notin> set ''3'' \<and> TAB \<notin> set ''1'' \<and> ''3'' \<noteq> ''-'' \<and> ''1'' \<noteq> ''-''
     \<and> parseInt10 ''3'' = Some 3 \<and> parseInt10 ''1'' = Some 1 \<and> \<not> ((3::int) = 0 \<and> (1::int) = 0)"
    by code_simp
  note key = T [THEN conjunct2, THEN conjunct1, rule_format]
  from key [OF h] have s: "numstatStep ?m (''3'' @ [TAB] @ ''1'' @ [TAB] @ ?p) =
      AList.update (normalizePath ?p) \<lparr>added = 3, deleted = 1\<rparr> ?m" .
  have nq: "\<not> quoted ?p" by (simp add: quoted_def)
  note unq = T [THEN conjunct2, THEN conjunct2, THEN conjunct1, rule_format]
  from unq [OF nq] have "normalizePath ?p = map toSlash ?p" .
  then have n: "normalizePath ?p = ?k" by (simp add: toSlash_def)
  have c1: "numstatStep ?m (''3'' @ [TAB] @ ''1'' @ [TAB] @ ?p) = [(?k, \<lparr>added = 3, deleted = 1\<rparr>)]"
    unfolding s n by simp
  have r: "rowsFor ?k (numstatRows ?t) =
     [(?k, \<lparr>added = 10, deleted = 5\<rparr>), (?k, \<lparr>added = 3, deleted = 1\<rparr>)]"
    by code_simp
  note look = T [THEN conjunct2, THEN conjunct2, THEN conjunct2, THEN conjunct2,
    THEN conjunct2, THEN conjunct2, THEN conjunct2, THEN conjunct2, THEN conjunct2,
    THEN conjunct2, rule_format]
  have "map_of (parseNumstat ?t) ?k =
        (case rowsFor ?k (numstatRows ?t) of
           [] \<Rightarrow> None
         | r # rs \<Rightarrow> Some (snd (last (r # rs))))" by (rule look)
  then have c2: "map_of (parseNumstat ?t) ?k = Some \<lparr>added = 3, deleted = 1\<rparr>"
    unfolding r by simp
  note quo = T [THEN conjunct2, THEN conjunct2, THEN conjunct2, THEN conjunct1, rule_format]
  have "normalizePath (DQUOTE # (''a b'' @ [BACKSLASH, DQUOTE] @ ''c'' @ [BACKSLASH, BACKSLASH] @ ''d'') @ [DQUOTE]) =
         map toSlash (replaceAll [BACKSLASH, BACKSLASH] [BACKSLASH]
                        (replaceAll [BACKSLASH, DQUOTE] [DQUOTE] (''a b'' @ [BACKSLASH, DQUOTE] @ ''c'' @ [BACKSLASH, BACKSLASH] @ ''d'')))" by (rule quo)
  moreover have "map toSlash (replaceAll [BACKSLASH, BACKSLASH] [BACKSLASH]
                        (replaceAll [BACKSLASH, DQUOTE] [DQUOTE] (''a b'' @ [BACKSLASH, DQUOTE] @ ''c'' @ [BACKSLASH, BACKSLASH] @ ''d''))) = ''a b'' @ [DQUOTE] @ ''c/d''"
    by code_simp
  ultimately have c3: "normalizePath ([DQUOTE] @ ''a b'' @ [BACKSLASH, DQUOTE] @ ''c'' @ [BACKSLASH, BACKSLASH] @ ''d'' @ [DQUOTE])
       = ''a b'' @ [DQUOTE] @ ''c/d''" by simp
  from c1 c2 c3 show ?thesis by (intro conjI)
qed

text \<open>
  Claim C7, as amended. No entry of the result of \<^verbatim>\<open>parseNumstat\<close> has both counts
  zero. Both counts of every entry are at least 0 when no line that the loop stores has
  a count field that begins, after leading white space, with a minus sign:
  \<^verbatim>\<open>parseInt\<close> reads a sign, and only the field that is exactly \<^verbatim>\<open>-\<close> is skipped.
  Binary rows and lines that are skipped may hold any hyphen.
\<close>

theorem parseNumstat_stats:
  "(\<forall>e \<in> set (parseNumstat text). \<not> (added (snd e) = 0 \<and> deleted (snd e) = 0))
   \<and> (countsUnsigned text \<longrightarrow>
        (\<forall>e \<in> set (parseNumstat text). 0 \<le> added (snd e) \<and> 0 \<le> deleted (snd e)))"
proof -
  have row: "\<exists>ln \<in> set (splitOn LF text). numstatRow ln = Some e"
    if "e \<in> set (parseNumstat text)" for e
    using that set_insertAll [of "numstatRows text"]
    by (auto simp: parseNumstat_rows numstatRows_def set_map_filter)
  have nz: "\<not> (added (snd e) = 0 \<and> deleted (snd e) = 0)" if "e \<in> set (parseNumstat text)" for e
  proof -
    from row [OF that] obtain ln where "numstatRow ln = Some e" by auto
    from numstatRow_SomeD [OF this] show ?thesis by blast
  qed
  have nn: "0 \<le> added (snd e) \<and> 0 \<le> deleted (snd e)"
    if u: "countsUnsigned text" and e: "e \<in> set (parseNumstat text)" for e
  proof -
    from row [OF e] obtain ln where ln: "ln \<in> set (splitOn LF text)"
      and r: "numstatRow ln = Some e" by auto
    from numstatRow_SomeD [OF r] obtain a d p ps where sp: "splitOn TAB ln = a # d # p # ps"
      and na: "a \<noteq> ''-''" and nd: "d \<noteq> ''-''"
      and a: "parseInt10 a = Some (added (snd e))" and d: "parseInt10 d = Some (deleted (snd e))"
      and nz0: "\<not> (added (snd e) = 0 \<and> deleted (snd e) = 0)"
      by blast
    from u ln have "case splitOn TAB ln of
                      a # d # p # ps \<Rightarrow>
                        a = ''-'' \<or> d = ''-'' \<or> parseInt10 a = None \<or> parseInt10 d = None
                        \<or> (parseInt10 a = Some 0 \<and> parseInt10 d = Some 0)
                        \<or> (\<not> signedField a \<and> \<not> signedField d)
                    | _ \<Rightarrow> True"
      by (simp add: countsUnsigned_def list_all_iff)
    with sp na nd a d nz0 have "\<not> signedField a" "\<not> signedField d" by auto
    with a d show ?thesis using parseInt10_nonneg by blast
  qed
  from nz nn show ?thesis by blast
qed

theorem parseNumstat_stats_witness:
  "countsUnsigned (''-'' @ [TAB] @ ''-'' @ [TAB] @ ''image.png'' @ [LF] @
                   ''10'' @ [TAB] @ ''5'' @ [TAB] @ ''src/my-code.ts'' @ [LF] @
                   ''not-a-row'')
   \<and> parseNumstat (''-'' @ [TAB] @ ''-'' @ [TAB] @ ''image.png'' @ [LF] @
                   ''10'' @ [TAB] @ ''5'' @ [TAB] @ ''src/my-code.ts'' @ [LF] @
                   ''not-a-row'') =
       [(''src/my-code.ts'', \<lparr>added = 10, deleted = 5\<rparr>)]"
proof -
  let ?t = "''-'' @ [TAB] @ ''-'' @ [TAB] @ ''image.png'' @ [LF] @
                   ''10'' @ [TAB] @ ''5'' @ [TAB] @ ''src/my-code.ts'' @ [LF] @
                   ''not-a-row''"
  have u: "countsUnsigned ?t" by code_simp
  have p: "parseNumstat ?t = [(''src/my-code.ts'', \<lparr>added = 10, deleted = 5\<rparr>)]" by code_simp
  from parseNumstat_stats [of ?t] u p show ?thesis by simp
qed

text \<open>
  The claim as it was stated, for every input text, fails on a count field with a
  sign: the entry carries a negative count.
\<close>

theorem parseNumstat_negative_counterexample:
  "parseNumstat (''-5'' @ [TAB] @ ''3'' @ [TAB] @ ''src/foo.ts'') =
     [(''src/foo.ts'', \<lparr>added = - 5, deleted = 3\<rparr>)]"
  by code_simp

section \<open>The unified diff parser\<close>

lemma prefix_hd: "prefix (c # cs) ln \<Longrightarrow> ln \<noteq> [] \<and> hd ln = c"
  by (cases ln) auto

lemma header_not_binary: "isFileHeader ln \<Longrightarrow> \<not> isBinaryMarker ln"
  unfolding isFileHeader_def isBinaryMarker_def
  by (auto dest!: prefix_hd)

lemma blank_not_header: "trim ln = [] \<Longrightarrow> \<not> isFileHeader ln"
proof
  assume b: "trim ln = []" and "isFileHeader ln"
  then have "ln \<noteq> [] \<and> hd ln = CHR ''d''" unfolding isFileHeader_def by (auto dest!: prefix_hd)
  then have "CHR ''d'' \<in> set ln" using hd_in_set by metis
  with b have "isWhiteSpace (CHR ''d'')" by (simp add: trim_Nil_iff)
  then show False by (simp add: isWhiteSpace_def)
qed

lemma diffStep_header:
  "isFileHeader ln \<Longrightarrow>
   diffStep st ln = \<lparr>files = saveFile st, currentFile = destinationPath ln, hunkList = []\<rparr>"
  unfolding diffStep_def isFileHeader_def destinationPath_def
  by (simp split: option.splits)

lemma diffStep_binary:
  "\<not> isFileHeader ln \<Longrightarrow> isBinaryMarker ln \<Longrightarrow>
   diffStep \<lparr>files = F, currentFile = cf, hunkList = hs\<rparr> ln =
     \<lparr>files = F, currentFile = None, hunkList = []\<rparr>"
  unfolding diffStep_def isFileHeader_def isBinaryMarker_def by simp

lemma diffStep_other:
  "\<not> isFileHeader ln \<Longrightarrow> \<not> isBinaryMarker ln \<Longrightarrow>
   diffStep \<lparr>files = F, currentFile = cf, hunkList = hs\<rparr> ln =
     \<lparr>files = F, currentFile = cf,
      hunkList = (if truthy cf then hs @ sectionHunks [ln] else hs)\<rparr>"
  unfolding diffStep_def isFileHeader_def isBinaryMarker_def sectionHunks_def
  by (simp add: List.map_filter_simps split: option.splits)

lemma sectionHunks_Cons: "sectionHunks (ln # body) = sectionHunks [ln] @ sectionHunks body"
  by (simp add: sectionHunks_def List.map_filter_simps split: option.splits)

lemma scan_inactive:
  assumes "\<forall>l \<in> set body. \<not> isFileHeader l" and "\<not> truthy cf"
  shows "saveFile (foldl diffStep \<lparr>files = F, currentFile = cf, hunkList = hs\<rparr> body) = F"
  using assms
proof (induction body arbitrary: cf hs)
  case Nil
  then show ?case by (auto simp: saveFile_def truthy_def split: option.splits)
next
  case (Cons ln body)
  from Cons.prems have nh: "\<not> isFileHeader ln" and rest: "\<forall>l \<in> set body. \<not> isFileHeader l"
    by simp_all
  show ?case
  proof (cases "isBinaryMarker ln")
    case True
    have "\<not> truthy None" by (simp add: truthy_def)
    with Cons.IH [OF rest, of None "[]"] show ?thesis
      by (simp add: diffStep_binary [OF nh True])
  next
    case False
    with Cons.IH [OF rest Cons.prems(2), of hs] Cons.prems(2) show ?thesis
      by (simp add: diffStep_other [OF nh False])
  qed
qed

lemma scan_active:
  assumes "\<forall>l \<in> set body. \<not> isFileHeader l" and "p \<noteq> []"
  shows "saveFile (foldl diffStep \<lparr>files = F, currentFile = Some p, hunkList = hs\<rparr> body) =
     (if list_ex isBinaryMarker body then F
      else if hs @ sectionHunks body = [] then F
      else AList.update p \<lparr>path = p, hunks = hs @ sectionHunks body\<rparr> F)"
  using assms
proof (induction body arbitrary: hs)
  case Nil
  then show ?case by (simp add: saveFile_def sectionHunks_def List.map_filter_simps)
next
  case (Cons ln body)
  from Cons.prems have nh: "\<not> isFileHeader ln" and rest: "\<forall>l \<in> set body. \<not> isFileHeader l"
    by simp_all
  show ?case
  proof (cases "isBinaryMarker ln")
    case True
    have "\<not> truthy None" by (simp add: truthy_def)
    with scan_inactive [OF rest, of None F "[]"] True show ?thesis
      by (simp add: diffStep_binary [OF nh True])
  next
    case False
    have t: "truthy (Some p)" using Cons.prems(2) by (simp add: truthy_def)
    show ?thesis
      using Cons.IH [OF rest Cons.prems(2), of "hs @ sectionHunks [ln]"] False t
      by (simp add: diffStep_other [OF nh False] sectionHunks_Cons [of ln body])
  qed
qed

lemma scan_section:
  assumes "\<forall>l \<in> set body. \<not> isFileHeader l"
  shows "saveFile (foldl diffStep \<lparr>files = F, currentFile = destinationPath hdr, hunkList = []\<rparr> body) =
     (case sectionResult (hdr, body) of None \<Rightarrow> F | Some r \<Rightarrow> AList.update (fst r) (snd r) F)"
proof (cases "destinationPath hdr")
  case None
  then show ?thesis
    using scan_inactive [OF assms, of None F "[]"]
    by (simp add: truthy_def sectionResult_def)
next
  case (Some p)
  show ?thesis
  proof (cases "p = []")
    case True
    with Some show ?thesis
      using scan_inactive [OF assms, of "Some p" F "[]"]
      by (simp add: truthy_def sectionResult_def)
  next
    case False
    with Some show ?thesis
      using scan_active [OF assms False, of F "[]"]
      by (simp add: sectionResult_def)
  qed
qed

lemma scan_sections:
  "saveFile (foldl diffStep st lns) =
     foldl (\<lambda>m r. AList.update (fst r) (snd r) m)
       (saveFile (foldl diffStep st (takeWhile (\<lambda>l. \<not> isFileHeader l) lns)))
       (List.map_filter sectionResult (sections lns))"
proof (induction lns arbitrary: st)
  case Nil
  show ?case by (simp add: List.map_filter_simps)
next
  case (Cons ln lns)
  show ?case
  proof (cases "isFileHeader ln")
    case True
    let ?body = "takeWhile (\<lambda>l. \<not> isFileHeader l) lns"
    have nh: "\<forall>l \<in> set ?body. \<not> isFileHeader l" by (auto dest: set_takeWhileD)
    have "saveFile (foldl diffStep st (ln # lns)) =
          saveFile (foldl diffStep (diffStep st ln) lns)" by simp
    also have "\<dots> = foldl (\<lambda>m r. AList.update (fst r) (snd r) m)
         (saveFile (foldl diffStep (diffStep st ln) ?body))
         (List.map_filter sectionResult (sections lns))"
      by (rule Cons.IH)
    also have "saveFile (foldl diffStep (diffStep st ln) ?body) =
        (case sectionResult (ln, ?body) of None \<Rightarrow> saveFile st
         | Some r \<Rightarrow> AList.update (fst r) (snd r) (saveFile st))"
      unfolding diffStep_header [OF True] by (rule scan_section [OF nh])
    finally show ?thesis using True
      by (cases "sectionResult (ln, ?body)") (simp_all add: List.map_filter_simps)
  next
    case False
    have "saveFile (foldl diffStep st (ln # lns)) =
          saveFile (foldl diffStep (diffStep st ln) lns)" by simp
    also have "\<dots> = foldl (\<lambda>m r. AList.update (fst r) (snd r) m)
         (saveFile (foldl diffStep (diffStep st ln) (takeWhile (\<lambda>l. \<not> isFileHeader l) lns)))
         (List.map_filter sectionResult (sections lns))"
      by (rule Cons.IH)
    finally show ?thesis using False by simp
  qed
qed

lemma sections_no_header: "(\<forall>l \<in> set lns. \<not> isFileHeader l) \<Longrightarrow> sections lns = []"
  by (induction lns) simp_all

lemma parseDiff_sections: "parseDiff text = insertAll (sectionResults text)"
proof (cases "trim text = []")
  case True
  then have "\<forall>l \<in> set (splitOn LF text). \<not> isFileHeader l"
    using blank_lines blank_not_header by blast
  then have "sections (splitOn LF text) = []" by (rule sections_no_header)
  with True show ?thesis
    by (simp add: parseDiff_def insertAll_def sectionResults_def List.map_filter_simps)
next
  case False
  let ?init = "\<lparr>files = [], currentFile = None, hunkList = []\<rparr>"
  let ?pre = "takeWhile (\<lambda>l. \<not> isFileHeader l) (splitOn LF text)"
  have nh: "\<forall>l \<in> set ?pre. \<not> isFileHeader l" by (auto dest: set_takeWhileD)
  have "\<not> truthy None" by (simp add: truthy_def)
  with scan_inactive [OF nh, of None "[]" "[]"]
  have "saveFile (foldl diffStep ?init ?pre) = []" by simp
  with scan_sections [of ?init "splitOn LF text"] False show ?thesis
    by (simp add: parseDiff_def insertAll_def sectionResults_def)
qed

lemma sectionResult_SomeD:
  assumes "sectionResult sec = Some e"
  shows "destinationPath (fst sec) = Some (fst e) \<and> fst e \<noteq> []
       \<and> snd e = \<lparr>path = fst e, hunks = sectionHunks (snd sec)\<rparr>
       \<and> sectionHunks (snd sec) \<noteq> [] \<and> \<not> list_ex isBinaryMarker (snd sec)"
  using assms by (auto simp: sectionResult_def split: option.splits if_splits)

lemma parseDiff_entry:
  assumes "e \<in> set (parseDiff text)"
  shows "\<exists>sec \<in> set (sections (splitOn LF text)). sectionResult sec = Some e"
  using assms set_insertAll [of "sectionResults text"]
  by (auto simp: parseDiff_sections sectionResults_def set_map_filter)

lemma sectionHunks_parsed: "h \<in> set (sectionHunks body) \<Longrightarrow> \<exists>ln. parseHunkHeader ln = Some h"
  by (auto simp: sectionHunks_def set_map_filter)


lemma rowsFor_distinct:
  "distinct (map fst m) \<Longrightarrow> map_of m k = Some v \<Longrightarrow> rowsFor k m = [(k, v)]"
proof (induction m)
  case Nil
  then show ?case by simp
next
  case (Cons e m)
  show ?case
  proof (cases "fst e = k")
    case True
    with Cons.prems have "k \<notin> fst ` set m" and "snd e = v" by auto
    then have "rowsFor k m = []" by (auto simp: rowsFor_def filter_empty_conv)
    with True \<open>snd e = v\<close> show ?thesis by (cases e) (simp add: rowsFor_def)
  next
    case False
    with Cons show ?thesis by (cases e) (auto simp: rowsFor_def)
  qed
qed

lemma rowsFor_insertAll:
  assumes "rowsFor k rows \<noteq> []"
  shows "rowsFor k (insertAll rows) = [last (rowsFor k rows)]"
proof -
  from assms obtain r rs where rr: "rowsFor k rows = r # rs" by (cases "rowsFor k rows") auto
  then have m: "map_of (insertAll rows) k = Some (snd (last (r # rs)))"
    by (simp add: map_of_insertAll)
  have "last (r # rs) \<in> set (rowsFor k rows)" unfolding rr by (rule last_in_set) simp
  then have "fst (last (r # rs)) = k" by (simp add: rowsFor_def rr)
  with rowsFor_distinct [OF distinct_insertAll m] rr show ?thesis
    by (metis prod.collapse)
qed

lemma map_filter_app: "List.map_filter f (xs @ ys) = List.map_filter f xs @ List.map_filter f ys"
  by (simp add: List.map_filter_def)












lemma rowsFor_app: "rowsFor k (xs @ ys) = rowsFor k xs @ rowsFor k ys"
  by (simp add: rowsFor_def)

lemma rowsFor_other_sections:
  assumes "\<forall>s \<in> set secs. destinationPath (fst s) \<noteq> Some p"
  shows "rowsFor p (List.map_filter sectionResult secs) = []"
proof -
  have "fst e \<noteq> p" if "e \<in> set (List.map_filter sectionResult secs)" for e
  proof -
    from that obtain s where s: "s \<in> set secs" and r: "sectionResult s = Some e"
      by (auto simp: set_map_filter)
    from sectionResult_SomeD [OF r] s assms show ?thesis by auto
  qed
  then show ?thesis by (auto simp: rowsFor_def filter_empty_conv)
qed

lemma sectionResult_commit:
  assumes "destinationPath hdr = Some p" and "p \<noteq> []" and "sectionHunks body \<noteq> []"
    and "\<not> list_ex isBinaryMarker body"
  shows "sectionResult (hdr, body) = Some (p, \<lparr>path = p, hunks = sectionHunks body\<rparr>)"
  using assms by (simp add: sectionResult_def)

text \<open>
  Claim C10, as amended. Let two file sections of a text have the same normalized
  destination path, let each hold at least one hunk header that is parsed (so the path is
  not empty, since the lines of a section with an empty path are never parsed), let no
  binary-file marker stand in the later section, and let no section after it have this
  path. Then the result of \<^verbatim>\<open>parseDiff\<close> has exactly one entry for the path, and its
  hunks are those of the later section only.
\<close>

theorem parseDiff_later_section_wins:
  assumes secs: "sections (splitOn LF text) = pre @ (hdr1, body1) # mid @ (hdr2, body2) # post"
    and p1: "destinationPath hdr1 = Some p" and p2: "destinationPath hdr2 = Some p"
    and ne: "p \<noteq> []"
    and h1: "sectionHunks body1 \<noteq> []" and h2: "sectionHunks body2 \<noteq> []"
    and nb: "\<not> list_ex isBinaryMarker body2"
    and last: "\<forall>s \<in> set post. destinationPath (fst s) \<noteq> Some p"
  shows "rowsFor p (parseDiff text) = [(p, \<lparr>path = p, hunks = sectionHunks body2\<rparr>)]"
proof -
  let ?r2 = "(p, \<lparr>path = p, hunks = sectionHunks body2\<rparr>)"
  let ?before = "rowsFor p (List.map_filter sectionResult (pre @ (hdr1, body1) # mid))"
  have split: "sections (splitOn LF text) = (pre @ (hdr1, body1) # mid) @ [(hdr2, body2)] @ post"
    by (simp add: secs)
  have r2: "List.map_filter sectionResult [(hdr2, body2)] = [?r2]"
    using sectionResult_commit [OF p2 ne h2 nb] by (simp add: List.map_filter_simps)
  have "sectionResults text =
      List.map_filter sectionResult (pre @ (hdr1, body1) # mid) @
      [?r2] @ List.map_filter sectionResult post"
    unfolding sectionResults_def split map_filter_app r2 ..
  then have rows: "rowsFor p (sectionResults text) = ?before @ [?r2]"
    using rowsFor_other_sections [OF last] by (simp add: rowsFor_app) (simp add: rowsFor_def)
  then have "rowsFor p (sectionResults text) \<noteq> []" by simp
  from rowsFor_insertAll [OF this] rows show ?thesis
    by (simp add: parseDiff_sections)
qed

theorem parseDiff_later_section_wins_witness:
  "rowsFor ''x.ts'' (parseDiff
      (''diff --git a/x.ts b/x.ts'' @ [LF] @ ''@@ -1 +1 @@'' @ [LF] @
       ''diff --git a/y.ts b/y.ts'' @ [LF] @ ''@@ -4 +4 @@'' @ [LF] @
       ''diff --git a/x.ts b/x.ts'' @ [LF] @ ''@@ -7,2 +7,3 @@'' @ [LF] @ ''@@ -20 +21,0 @@'')) =
     [(''x.ts'', \<lparr>path = ''x.ts'',
         hunks = [\<lparr>oldStart = 7, oldCount = 2, newStart = 7, newCount = 3\<rparr>,
                  \<lparr>oldStart = 20, oldCount = 1, newStart = 21, newCount = 0\<rparr>]\<rparr>)]"
proof -
  let ?t = "''diff --git a/x.ts b/x.ts'' @ [LF] @ ''@@ -1 +1 @@'' @ [LF] @
       ''diff --git a/y.ts b/y.ts'' @ [LF] @ ''@@ -4 +4 @@'' @ [LF] @
       ''diff --git a/x.ts b/x.ts'' @ [LF] @ ''@@ -7,2 +7,3 @@'' @ [LF] @ ''@@ -20 +21,0 @@''"
  let ?b2 = "[''@@ -7,2 +7,3 @@'', ''@@ -20 +21,0 @@'']"
  have secs: "sections (splitOn LF ?t) =
      [] @ (''diff --git a/x.ts b/x.ts'', [''@@ -1 +1 @@'']) #
      [(''diff --git a/y.ts b/y.ts'', [''@@ -4 +4 @@''])] @
      (''diff --git a/x.ts b/x.ts'', ?b2) # []"
    by code_simp
  have p: "destinationPath ''diff --git a/x.ts b/x.ts'' = Some ''x.ts''" by code_simp
  have h1: "sectionHunks [''@@ -1 +1 @@''] \<noteq> []" by code_simp
  have h2: "sectionHunks ?b2 = [\<lparr>oldStart = 7, oldCount = 2, newStart = 7, newCount = 3\<rparr>,
                  \<lparr>oldStart = 20, oldCount = 1, newStart = 21, newCount = 0\<rparr>]" by code_simp
  then have h2': "sectionHunks ?b2 \<noteq> []" by simp
  have nb: "\<not> list_ex isBinaryMarker ?b2" by code_simp
  have ne: "''x.ts'' \<noteq> []" by simp
  have l: "\<forall>s \<in> set []. destinationPath (fst s) \<noteq> Some ''x.ts''" by simp
  from parseDiff_later_section_wins [OF secs p p ne h1 h2' nb l] show ?thesis
    unfolding h2 .
qed

text \<open>
  The claim as it was stated fails when a binary-file marker follows the hunk header
  of the later section: the marker discards the hunks parsed so far, the later section
  commits nothing, and the path stays bound to the hunks of the earlier section.
\<close>

theorem parseDiff_later_binary_counterexample:
  "sections (splitOn LF
      (''diff --git a/x.ts b/x.ts'' @ [LF] @ ''@@ -1 +1 @@'' @ [LF] @
       ''diff --git a/x.ts b/x.ts'' @ [LF] @ ''@@ -7,2 +7,3 @@'' @ [LF] @
       ''Binary files a/x.ts and b/x.ts differ'')) =
     [(''diff --git a/x.ts b/x.ts'', [''@@ -1 +1 @@'']),
      (''diff --git a/x.ts b/x.ts'', [''@@ -7,2 +7,3 @@'', ''Binary files a/x.ts and b/x.ts differ''])]
   \<and> parseHunkHeader ''@@ -7,2 +7,3 @@'' =
       Some \<lparr>oldStart = 7, oldCount = 2, newStart = 7, newCount = 3\<rparr>
   \<and> parseDiff
      (''diff --git a/x.ts b/x.ts'' @ [LF] @ ''@@ -1 +1 @@'' @ [LF] @
       ''diff --git a/x.ts b/x.ts'' @ [LF] @ ''@@ -7,2 +7,3 @@'' @ [LF] @
       ''Binary files a/x.ts and b/x.ts differ'') =
     [(''x.ts'', \<lparr>path = ''x.ts'',
         hunks = [\<lparr>oldStart = 1, oldCount = 1, newStart = 1, newCount = 1\<rparr>]\<rparr>)]"
  by code_simp

text \<open>
  Claim C4, as amended. The four fields of every hunk that \<^verbatim>\<open>parseHunkHeader\<close>
  returns, and so of every hunk that \<^verbatim>\<open>parseDiff\<close> stores, are integers that are at
  least 0. The counts may be 0, and so may \<^verbatim>\<open>oldStart\<close> and \<^verbatim>\<open>newStart\<close>.
\<close>

theorem hunks_nonneg:
  "(\<forall>h. parseHunkHeader ln = Some h \<longrightarrow> nonNegHunk h)
   \<and> (\<forall>e \<in> set (parseDiff text). \<forall>h \<in> set (hunks (snd e)). nonNegHunk h)"
proof -
  have "nonNegHunk h" if e: "e \<in> set (parseDiff text)" and h: "h \<in> set (hunks (snd e))" for e h
  proof -
    from parseDiff_entry [OF e] obtain sec where "sectionResult sec = Some e" by blast
    from sectionResult_SomeD [OF this] h have "h \<in> set (sectionHunks (snd sec))" by simp
    then show ?thesis using sectionHunks_parsed parseHunkHeader_nonneg by blast
  qed
  then show ?thesis using parseHunkHeader_nonneg by blast
qed

theorem hunks_nonneg_witness:
  "nonNegHunk \<lparr>oldStart = 0, oldCount = 0, newStart = 1, newCount = 3\<rparr>
   \<and> parseDiff (''diff --git a/n.ts b/n.ts'' @ [LF] @ ''@@ -0,0 +1,3 @@'' @ [LF] @ ''+x'') =
       [(''n.ts'', \<lparr>path = ''n.ts'',
           hunks = [\<lparr>oldStart = 0, oldCount = 0, newStart = 1, newCount = 3\<rparr>]\<rparr>)]"
proof -
  let ?h = "\<lparr>oldStart = 0, oldCount = 0, newStart = 1, newCount = 3\<rparr>"
  let ?t = "''diff --git a/n.ts b/n.ts'' @ [LF] @ ''@@ -0,0 +1,3 @@'' @ [LF] @ ''+x''"
  have p: "parseHunkHeader ''@@ -0,0 +1,3 @@'' = Some ?h" by code_simp
  have d: "parseDiff ?t = [(''n.ts'', \<lparr>path = ''n.ts'', hunks = [?h]\<rparr>)]" by code_simp
  from hunks_nonneg [of "''@@ -0,0 +1,3 @@''" ?t] p d show ?thesis by simp
qed

text \<open>
  The claim as it was stated, with \<^verbatim>\<open>oldStart\<close> and \<^verbatim>\<open>newStart\<close> at least 1, fails
  on the header that git writes for a new file.
\<close>

theorem hunk_start_counterexample:
  "parseHunkHeader ''@@ -0,0 +1,3 @@'' =
     Some \<lparr>oldStart = 0, oldCount = 0, newStart = 1, newCount = 3\<rparr>"
  by code_simp

end
